theory Spec2Isabelle
  imports
    Complex_Main
    "HOL-Library.Log_Nat"
    "HOL-Library.Char_ord"
    "HOL-Library.List_Lexorder"
    "HOL-Library.Multiset"
begin

section \<open>Coverage report of the Necromancer's Shell build (coverage\_report.py)\<close>

text \<open>
  The script walks the build directory for coverage artifacts, runs the coverage tool on
  each of them, extracts two figures from the tool's text with regular expressions,
  aggregates the records and prints a report. The development below embeds the script
  function by function. Text is a list of characters; a character stands for a code point
  below 256, on which the digit class of the pattern language is exactly the ten ASCII
  digits.
\<close>

subsection \<open>Substring membership\<close>

text \<open>\<^verbatim>\<open>sub in s\<close> on strings: some position of \<open>s\<close> starts a copy of \<open>sub\<close>.\<close>

fun startswith :: "string \<Rightarrow> string \<Rightarrow> bool" where
  "startswith [] s = True"
| "startswith (p # ps) [] = False"
| "startswith (p # ps) (c # cs) = (p = c \<and> startswith ps cs)"

fun py_in :: "string \<Rightarrow> string \<Rightarrow> bool" where
  "py_in sub [] = (sub = [])"
| "py_in sub (c # cs) = (startswith sub (c # cs) \<or> py_in sub cs)"

subsection \<open>Category of a file path\<close>

text \<open>The \<^verbatim>\<open>if\<close>/\<^verbatim>\<open>elif\<close> chain in the grouping loop of \<^verbatim>\<open>main\<close>.\<close>

definition categorize :: "string \<Rightarrow> string" where
  "categorize file_path =
     (if py_in ''/core/'' file_path then ''Core Systems''
      else if py_in ''/commands/'' file_path then ''Command System''
      else if py_in ''/game/souls/'' file_path \<or> py_in ''/game/minions/'' file_path
        then ''Game Entities''
      else if py_in ''/game/combat/'' file_path then ''Combat System''
      else if py_in ''/game/narrative/'' file_path then ''Narrative Systems''
      else if py_in ''/game/world/'' file_path then ''World Systems''
      else if py_in ''/game/progression/'' file_path then ''Progression''
      else if py_in ''/terminal/'' file_path then ''Terminal/UI''
      else if py_in ''/utils/'' file_path then ''Utilities''
      else if py_in ''/data/'' file_path then ''Data Loaders''
      else ''Other'')"

text \<open>
  The specification's reading of the same chain: an ordered list of rules, each a set of
  path fragments with a label, of which the first rule with a fragment inside the path
  decides; the catch-all label answers when no rule applies.
\<close>

definition category_rules :: "(string list \<times> string) list" where
  "category_rules =
     [([''/core/''], ''Core Systems''),
      ([''/commands/''], ''Command System''),
      ([''/game/souls/'', ''/game/minions/''], ''Game Entities''),
      ([''/game/combat/''], ''Combat System''),
      ([''/game/narrative/''], ''Narrative Systems''),
      ([''/game/world/''], ''World Systems''),
      ([''/game/progression/''], ''Progression''),
      ([''/terminal/''], ''Terminal/UI''),
      ([''/utils/''], ''Utilities''),
      ([''/data/''], ''Data Loaders'')]"

fun first_rule :: "(string list \<times> string) list \<Rightarrow> string \<Rightarrow> string" where
  "first_rule [] path = ''Other''"
| "first_rule ((frags, label) # rules) path =
     (if list_ex (\<lambda>f. py_in f path) frags then label else first_rule rules path)"

definition category_labels :: "string list" where
  "category_labels =
     [''Core Systems'', ''Command System'', ''Game Entities'', ''Combat System'',
      ''Narrative Systems'', ''World Systems'', ''Progression'', ''Terminal/UI'',
      ''Utilities'', ''Data Loaders'', ''Other'']"

subsection \<open>Exceptions\<close>

text \<open>
  The exceptions the script can meet, all of them below \<^verbatim>\<open>Exception\<close> in the class
  hierarchy: failures of the operating system when the tool is started or when standard
  output is written, undecodable tool output, text that standard output cannot encode, and
  the arithmetic and conversion errors of the interpreter.
\<close>

datatype pyexn =
    OSError | UnicodeDecodeError | UnicodeEncodeError | ValueError | OverflowError
  | ZeroDivisionError | IndexError

subsection \<open>Regular expressions\<close>

text \<open>
  The fragment of the pattern language that the two patterns of the script use: a literal
  character, the digit class \<^verbatim>\<open>\d\<close>, a negated one-character class \<^verbatim>\<open>[^c]\<close>, the
  greedy repetition \<^verbatim>\<open>+\<close> of one of these, and capturing parentheses. Matching is the
  backtracking search of the \<^verbatim>\<open>re\<close> module: a repetition first takes the longest run
  and gives characters back one at a time while the rest of the pattern fails.
\<close>

datatype cclass = Lit char | Digit | NotCh char

definition is_digit :: "char \<Rightarrow> bool" where
  "is_digit x = (x \<in> set ''0123456789'')"

fun cmatch :: "cclass \<Rightarrow> char \<Rightarrow> bool" where
  "cmatch (Lit c) x = (x = c)"
| "cmatch Digit x = is_digit x"
| "cmatch (NotCh c) x = (x \<noteq> c)"

datatype tok = One cclass | Plus cclass | GOpen | GClose

text \<open>
  \<open>rmatch ps s gs cur\<close> matches the pattern \<open>ps\<close> at the start of \<open>s\<close>; \<open>gs\<close> are the
  groups closed so far and \<open>cur\<close> the text of the group that is open. The result is the
  list of captured groups, in order.
\<close>

fun rmatch :: "tok list \<Rightarrow> string \<Rightarrow> string list \<Rightarrow> string option \<Rightarrow> string list option"
  and rplus :: "cclass \<Rightarrow> tok list \<Rightarrow> string \<Rightarrow> string list \<Rightarrow> string option \<Rightarrow> nat
                 \<Rightarrow> string list option" where
  "rmatch [] s gs cur = Some gs"
| "rmatch (One c # ps) [] gs cur = None"
| "rmatch (One c # ps) (x # xs) gs cur =
     (if cmatch c x then rmatch ps xs gs (map_option (\<lambda>g. g @ [x]) cur) else None)"
| "rmatch (GOpen # ps) s gs cur = rmatch ps s gs (Some [])"
| "rmatch (GClose # ps) s gs cur =
     (case cur of None \<Rightarrow> None | Some g \<Rightarrow> rmatch ps s (gs @ [g]) None)"
| "rmatch (Plus c # ps) s gs cur = rplus c ps s gs cur (length (takeWhile (cmatch c) s))"
| "rplus c ps s gs cur 0 = None"
| "rplus c ps s gs cur (Suc k) =
     (case rmatch ps (drop (Suc k) s) gs (map_option (\<lambda>g. g @ take (Suc k) s) cur) of
        Some r \<Rightarrow> Some r
      | None \<Rightarrow> rplus c ps s gs cur k)"

text \<open>\<^verbatim>\<open>re.search\<close>: the match at the leftmost position that has one.\<close>

fun re_search :: "tok list \<Rightarrow> string \<Rightarrow> string list option" where
  "re_search ps [] = rmatch ps [] [] None"
| "re_search ps (c # cs) =
     (case rmatch ps (c # cs) [] None of Some gs \<Rightarrow> Some gs | None \<Rightarrow> re_search ps cs)"

text \<open>\<^verbatim>\<open>match.group(n)\<close>, counted from 1.\<close>

definition match_group :: "string list \<Rightarrow> nat \<Rightarrow> pyexn + string" where
  "match_group gs n = (if 1 \<le> n \<and> n \<le> length gs then Inr (gs ! (n - 1)) else Inl IndexError)"

definition quote :: char where
  "quote = CHR 0x27"

text \<open>The pattern \<^verbatim>\<open>File '([^']+)'\<close>.\<close>

definition file_re :: "tok list" where
  "file_re =
     map (\<lambda>c. One (Lit c)) (''File '' @ [quote])
     @ [GOpen, Plus (NotCh quote), GClose, One (Lit quote)]"

text \<open>The pattern \<^verbatim>\<open>Lines executed:(\d+\.\d+)% of (\d+)\<close>.\<close>

definition coverage_re :: "tok list" where
  "coverage_re =
     map (\<lambda>c. One (Lit c)) ''Lines executed:''
     @ [GOpen, Plus Digit, One (Lit (CHR ''.'')), Plus Digit, GClose]
     @ map (\<lambda>c. One (Lit c)) ''% of ''
     @ [GOpen, Plus Digit, GClose]"

subsection \<open>Integers and floating-point numbers\<close>

text \<open>
  The value of a run of decimal digits. \<^verbatim>\<open>int(text)\<close> refuses text longer than the
  interpreter's digit limit (4300 by default, 0 when the limit is off or absent).
\<close>

definition digit_val :: "char \<Rightarrow> int" where
  "digit_val c = int (of_char c) - 48"

definition digits_to_int :: "string \<Rightarrow> int" where
  "digits_to_int ds = foldl (\<lambda>a c. 10 * a + digit_val c) 0 ds"

definition py_int :: "nat \<Rightarrow> string \<Rightarrow> pyexn + int" where
  "py_int max_str_digits ds =
     (if max_str_digits \<noteq> 0 \<and> max_str_digits < length ds then Inl ValueError
      else Inr (digits_to_int ds))"

text \<open>
  A \<^verbatim>\<open>float\<close> is an IEEE 754 binary64 number. Text matched by \<^verbatim>\<open>\d+\<close> carries no sign,
  so only the non-negative numbers arise: a finite one is written as the rational it
  denotes, next to positive infinity and not-a-number.
\<close>

datatype pyfloat = Fin rat | PInf | NaN

definition pow2 :: "int \<Rightarrow> rat" where
  "pow2 e = (if 0 \<le> e then 2 ^ nat e else 1 / 2 ^ nat (- e))"

text \<open>The exponent of a positive rational: the largest \<open>e\<close> with \<open>2\<^sup>e \<le> x\<close>.\<close>

definition ilog2 :: "rat \<Rightarrow> int" where
  "ilog2 x =
     (let (a, b) = quotient_of x; e = bitlen a - bitlen b
      in if pow2 e \<le> x then e else e - 1)"

definition round_half_even :: "rat \<Rightarrow> int" where
  "round_half_even x =
     (let f = \<lfloor>x\<rfloor>; d = x - of_int f
      in if d < 1 / 2 then f else if 1 / 2 < d then f + 1 else if even f then f else f + 1)"

text \<open>
  Rounding of a non-negative rational to the nearest binary64 number, ties to the even
  significand: 53 significant bits, the smallest exponent -1022 (below it the spacing
  stays at \<open>2\<^sup>-\<^sup>1\<^sup>0\<^sup>7\<^sup>4\<close>), overflow to infinity from \<open>2\<^sup>1\<^sup>0\<^sup>2\<^sup>4\<close> on.
\<close>

definition to_double :: "rat \<Rightarrow> pyfloat" where
  "to_double x =
     (if x = 0 then Fin 0
      else let e = max (ilog2 x) (- 1022);
               q = pow2 (e - 52);
               r = of_int (round_half_even (x / q)) * q
           in if pow2 1024 \<le> r then PInf else Fin r)"

text \<open>
  \<^verbatim>\<open>float(text)\<close> on text of the shape \<^verbatim>\<open>\d+\.\d+\<close>, the only shape the pattern lets
  through: the decimal number, correctly rounded.
\<close>

definition decimal_value :: "string \<Rightarrow> rat" where
  "decimal_value g =
     (let ip = takeWhile (\<lambda>c. c \<noteq> CHR ''.'') g; fp = drop (length ip + 1) g
      in of_int (digits_to_int (ip @ fp)) / 10 ^ length fp)"

definition py_float :: "string \<Rightarrow> pyfloat" where
  "py_float g = to_double (decimal_value g)"

text \<open>Conversion of an \<^verbatim>\<open>int\<close> operand of mixed arithmetic; too large an integer raises.\<close>

definition int_to_float :: "int \<Rightarrow> pyexn + pyfloat" where
  "int_to_float n =
     (case to_double (of_int n) of PInf \<Rightarrow> Inl OverflowError | f \<Rightarrow> Inr f)"

fun float_mul :: "pyfloat \<Rightarrow> pyfloat \<Rightarrow> pyfloat" where
  "float_mul (Fin x) (Fin y) = to_double (x * y)"
| "float_mul NaN b = NaN"
| "float_mul a NaN = NaN"
| "float_mul PInf (Fin y) = (if y = 0 then NaN else PInf)"
| "float_mul (Fin x) PInf = (if x = 0 then NaN else PInf)"
| "float_mul PInf PInf = PInf"

fun float_div :: "pyfloat \<Rightarrow> pyfloat \<Rightarrow> pyexn + pyfloat" where
  "float_div a (Fin y) =
     (if y = 0 then Inl ZeroDivisionError
      else case a of Fin x \<Rightarrow> Inr (to_double (x / y)) | PInf \<Rightarrow> Inr PInf | NaN \<Rightarrow> Inr NaN)"
| "float_div a NaN = Inr NaN"
| "float_div (Fin x) PInf = Inr (Fin 0)"
| "float_div a PInf = Inr NaN"

text \<open>\<^verbatim>\<open>int(x)\<close> on a float truncates; infinity and not-a-number raise.\<close>

fun float_to_int :: "pyfloat \<Rightarrow> pyexn + int" where
  "float_to_int (Fin x) = Inr (if 0 \<le> x then \<lfloor>x\<rfloor> else \<lceil>x\<rceil>)"
| "float_to_int PInf = Inl OverflowError"
| "float_to_int NaN = Inl ValueError"

text \<open>\<^verbatim>\<open>n * x\<close> and \<^verbatim>\<open>x / n\<close> with an integer \<open>n\<close> and a float \<open>x\<close>.\<close>

definition int_mul_float :: "int \<Rightarrow> pyfloat \<Rightarrow> pyexn + pyfloat" where
  "int_mul_float n x = (case int_to_float n of Inl e \<Rightarrow> Inl e | Inr f \<Rightarrow> Inr (float_mul f x))"

definition float_div_int :: "pyfloat \<Rightarrow> int \<Rightarrow> pyexn + pyfloat" where
  "float_div_int x n = (case int_to_float n of Inl e \<Rightarrow> Inl e | Inr f \<Rightarrow> float_div x f)"

subsection \<open>Extraction of one record\<close>

record coverage =
  file_name :: string
  percentage :: pyfloat
  covered :: int
  total :: int

text \<open>
  What \<^verbatim>\<open>subprocess.run\<close> with captured text output comes back with: an exception, or
  the text of the two standard streams.
\<close>

datatype run_result = Raised pyexn | Completed string string

text \<open>The body of the \<^verbatim>\<open>try\<close> block of \<^verbatim>\<open>parse_gcov_output\<close>.\<close>

definition parse_body :: "nat \<Rightarrow> run_result \<Rightarrow> pyexn + coverage option" where
  "parse_body max_str_digits result =
     (case result of
        Raised e \<Rightarrow> Inl e
      | Completed out err \<Rightarrow>
          let output = out @ err;
              file_match = re_search file_re output;
              coverage_match = re_search coverage_re output
          in case (file_match, coverage_match) of
               (Some fm, Some cm) \<Rightarrow>
                 (case match_group fm 1 of Inl e \<Rightarrow> Inl e | Inr filename \<Rightarrow>
                  case match_group cm 1 of Inl e \<Rightarrow> Inl e | Inr g1 \<Rightarrow>
                  let pct = py_float g1 in
                  case match_group cm 2 of Inl e \<Rightarrow> Inl e | Inr g2 \<Rightarrow>
                  case py_int max_str_digits g2 of Inl e \<Rightarrow> Inl e | Inr total_lines \<Rightarrow>
                  case int_mul_float total_lines pct of Inl e \<Rightarrow> Inl e | Inr product \<Rightarrow>
                  case float_div_int product 100 of Inl e \<Rightarrow> Inl e | Inr ratio \<Rightarrow>
                  case float_to_int ratio of Inl e \<Rightarrow> Inl e | Inr covered_lines \<Rightarrow>
                  Inr (Some \<lparr>file_name = filename, percentage = pct,
                             covered = covered_lines, total = total_lines\<rparr>))
             | _ \<Rightarrow> Inr None)"

text \<open>
  \<^verbatim>\<open>parse_gcov_output\<close>: the tool is run on the artifact, and whatever the body raises
  is caught and answered with no record.
\<close>

definition parse_gcov_output ::
    "nat \<Rightarrow> (string \<Rightarrow> run_result) \<Rightarrow> string \<Rightarrow> coverage option" where
  "parse_gcov_output max_str_digits gcov gcda_file =
     (case parse_body max_str_digits (gcov gcda_file) of Inl e \<Rightarrow> None | Inr v \<Rightarrow> v)"

subsection \<open>Artifact discovery\<close>

definition endswith :: "string \<Rightarrow> string \<Rightarrow> bool" where
  "endswith s suffix = startswith (rev suffix) (rev s)"

text \<open>\<^verbatim>\<open>os.path.join\<close> and \<^verbatim>\<open>os.path.basename\<close> on POSIX paths.\<close>

definition path_join :: "string \<Rightarrow> string \<Rightarrow> string" where
  "path_join a b =
     (if startswith ''/'' b then b
      else if a = [] \<or> endswith a ''/'' then a @ b
      else a @ ''/'' @ b)"

definition basename :: "string \<Rightarrow> string" where
  "basename p = rev (takeWhile (\<lambda>c. c \<noteq> CHR ''/'') (rev p))"

text \<open>
  The walk of the build directory hands over, per directory, its path and the names of its
  files; the artifacts are the files whose name ends in \<^verbatim>\<open>.gcda\<close>.
\<close>

definition find_gcda :: "(string \<times> string list) list \<Rightarrow> string list" where
  "find_gcda walk =
     concat (map (\<lambda>(root, files).
                    map (path_join root) (filter (\<lambda>f. endswith f ''.gcda'') files)) walk)"

subsection \<open>Aggregation\<close>

datatype pynum = PyInt int | PyFloat pyfloat

text \<open>
  \<^verbatim>\<open>a / b\<close> on integers is the correctly rounded quotient and raises when the divisor is
  zero or the quotient is too large for a float; operands here are never negative.
\<close>

definition int_true_div :: "int \<Rightarrow> int \<Rightarrow> pyexn + pyfloat" where
  "int_true_div a b =
     (if b = 0 then Inl ZeroDivisionError
      else case to_double (of_int a / of_int b) of
             PInf \<Rightarrow> Inl OverflowError
           | f \<Rightarrow> Inr f)"

definition float_mul_int :: "pyfloat \<Rightarrow> int \<Rightarrow> pyexn + pyfloat" where
  "float_mul_int x n = (case int_to_float n of Inl e \<Rightarrow> Inl e | Inr f \<Rightarrow> Inr (float_mul x f))"

text \<open>
  The expression \<^verbatim>\<open>(covered / total * 100) if total > 0 else 0\<close>, which \<^verbatim>\<open>main\<close>
  evaluates for the overall figure and for every category.
\<close>

definition percent_of :: "int \<Rightarrow> int \<Rightarrow> pyexn + pynum" where
  "percent_of covered_lines total_lines =
     (if total_lines > 0 then
        (case int_true_div covered_lines total_lines of
           Inl e \<Rightarrow> Inl e
         | Inr q \<Rightarrow> (case float_mul_int q 100 of Inl e \<Rightarrow> Inl e | Inr p \<Rightarrow> Inr (PyFloat p)))
      else Inr (PyInt 0))"

text \<open>
  The category table is a dictionary with a default entry of two zero counts; it is kept
  as an association list in the order in which the categories were first met.
\<close>

record bucket =
  covered_sum :: int
  total_sum :: int

fun add_to_category :: "string \<Rightarrow> coverage \<Rightarrow> (string \<times> bucket) list \<Rightarrow> (string \<times> bucket) list" where
  "add_to_category c d [] =
     [(c, \<lparr>covered_sum = 0 + covered d, total_sum = 0 + total d\<rparr>)]"
| "add_to_category c d ((k, b) # rest) =
     (if k = c
      then (k, \<lparr>covered_sum = covered_sum b + covered d, total_sum = total_sum b + total d\<rparr>) # rest
      else (k, b) # add_to_category c d rest)"

definition group_by_category :: "coverage list \<Rightarrow> (string \<times> bucket) list" where
  "group_by_category coverage_data =
     foldl (\<lambda>categories d. add_to_category (categorize (file_name d)) d categories) [] coverage_data"

definition lookup :: "(string \<times> bucket) list \<Rightarrow> string \<Rightarrow> bucket" where
  "lookup categories c =
     (case map_of categories c of
        Some b \<Rightarrow> b
      | None \<Rightarrow> \<lparr>covered_sum = 0, total_sum = 0\<rparr>)"

subsection \<open>Sorting\<close>

text \<open>
  The comparison \<^verbatim>\<open><\<close> on floats, and a stable sort that uses nothing but the
  comparison of keys: an element is put behind the elements whose key is not larger.
  On keys that the comparison orders totally, as finite floats are, every stable sort
  returns this list. With \<^verbatim>\<open>reverse=True\<close> the list is reversed before and after
  sorting, which keeps elements with equal keys in their original order.
\<close>

fun float_lt :: "pyfloat \<Rightarrow> pyfloat \<Rightarrow> bool" where
  "float_lt (Fin x) (Fin y) = (x < y)"
| "float_lt (Fin x) PInf = True"
| "float_lt a b = False"

text \<open>The rational that a finite float denotes.\<close>

fun float_value :: "pyfloat \<Rightarrow> rat" where
  "float_value (Fin x) = x"
| "float_value a = 0"

fun insort_lt :: "('k \<Rightarrow> 'k \<Rightarrow> bool) \<Rightarrow> ('a \<Rightarrow> 'k) \<Rightarrow> 'a \<Rightarrow> 'a list \<Rightarrow> 'a list" where
  "insort_lt lt key x [] = [x]"
| "insort_lt lt key x (y # ys) =
     (if lt (key x) (key y) then x # y # ys else y # insort_lt lt key x ys)"

definition py_sorted :: "('k \<Rightarrow> 'k \<Rightarrow> bool) \<Rightarrow> ('a \<Rightarrow> 'k) \<Rightarrow> 'a list \<Rightarrow> 'a list" where
  "py_sorted lt key xs = foldl (\<lambda>acc x. insort_lt lt key x acc) [] xs"

definition py_sorted_reverse :: "('k \<Rightarrow> 'k \<Rightarrow> bool) \<Rightarrow> ('a \<Rightarrow> 'k) \<Rightarrow> 'a list \<Rightarrow> 'a list" where
  "py_sorted_reverse lt key xs = rev (py_sorted lt key (rev xs))"

subsection \<open>The report\<close>

text \<open>
  A line handed to \<^verbatim>\<open>print\<close> is kept with the values it shows. Formatting the line and
  writing it to standard output is a step of its own, which the world of the script can
  refuse: see \<^verbatim>\<open>stdout_print\<close> below.
\<close>

datatype line =
    Text string
  | Found nat
  | Overall pynum
  | CoveredLines int int
  | CategoryRow string pynum int int
  | FileRow string pyfloat int int
  | NeedsImprovement nat

definition ljust :: "nat \<Rightarrow> string \<Rightarrow> string" where
  "ljust n s = s @ replicate (n - length s) (CHR '' '')"

definition rule_line :: "char \<Rightarrow> line" where
  "rule_line c = Text (replicate 70 c)"

definition file_row :: "coverage \<Rightarrow> line" where
  "file_row d = FileRow (basename (file_name d)) (percentage d) (covered d) (total d)"

text \<open>The rows of the category table; a row whose percentage raises ends the printing.\<close>

fun category_rows :: "(string \<times> bucket) list \<Rightarrow> string list \<Rightarrow> line list \<times> pyexn option" where
  "category_rows categories [] = ([], None)"
| "category_rows categories (c # cs) =
     (let stats = lookup categories c
      in case percent_of (covered_sum stats) (total_sum stats) of
           Inl e \<Rightarrow> ([], Some e)
         | Inr p \<Rightarrow>
             (let (rows, r) = category_rows categories cs
              in (CategoryRow c p (covered_sum stats) (total_sum stats) # rows, r)))"

definition top_files :: "coverage list \<Rightarrow> coverage list" where
  "top_files coverage_data = take 10 (py_sorted_reverse float_lt percentage coverage_data)"

definition low_coverage :: "coverage list \<Rightarrow> coverage list" where
  "low_coverage coverage_data = filter (\<lambda>d. float_lt (percentage d) (Fin 50)) coverage_data"

definition needs_improvement :: "coverage list \<Rightarrow> line list" where
  "needs_improvement coverage_data =
     (let low = low_coverage coverage_data
      in if low \<noteq> [] then
           [NeedsImprovement (length low), rule_line (CHR ''-'')]
           @ map file_row (take 15 (py_sorted float_lt percentage low))
         else [Text ''All files have >50% coverage!''])"

text \<open>
  What the script sees of the world: the walk of the build directory, the outcome of the
  coverage tool on each artifact, the interpreter's digit limit, and standard output.
  \<^verbatim>\<open>stdout_print\<close> is the outcome of one \<^verbatim>\<open>print\<close>, given the lines printed before it:
  nothing, or the exception that \<^verbatim>\<open>print\<close> raises (the text cannot be encoded, the
  stream is closed or broken, a number has more digits than the interpreter converts to
  text). \<^verbatim>\<open>stdout_flush\<close> tells whether the interpreter, when it shuts down, can flush
  what was printed.
\<close>

record env =
  os_walk :: "(string \<times> string list) list"
  run_gcov :: "string \<Rightarrow> run_result"
  int_max_str_digits :: nat
  stdout_print :: "line list \<Rightarrow> line \<Rightarrow> pyexn option"
  stdout_flush :: "line list \<Rightarrow> bool"

definition header :: "line list" where
  "header =
     [rule_line (CHR ''=''),
      Text (''Test Coverage Report - Necromancer'' @ [quote] @ ''s Shell''),
      rule_line (CHR ''=''),
      Text []]"

definition footer :: "line list" where
  "footer =
     [Text [],
      rule_line (CHR ''=''),
      Text ''For HTML reports, install lcov: sudo pacman -S lcov'',
      Text ''Then run: make coverage'',
      rule_line (CHR ''='')]"

definition collect :: "env \<Rightarrow> string list \<Rightarrow> coverage list" where
  "collect e gcda_files =
     List.map_filter (parse_gcov_output (int_max_str_digits e) (run_gcov e)) gcda_files"

text \<open>
  The body of \<^verbatim>\<open>main\<close> without its output: the lines that it hands to \<^verbatim>\<open>print\<close>, in
  the order of the program, up to the first computation that raises, and the exception of
  that computation if there is one.
\<close>

definition report :: "env \<Rightarrow> line list \<times> pyexn option" where
  "report e =
     (let gcda_files = find_gcda (os_walk e) in
      if gcda_files = [] then
        (header @ [Text (''No coverage data found. Run '' @ [quote] @ ''make coverage''
                         @ [quote] @ '' first.'')], None)
      else
        let found = [Found (length gcda_files), Text []];
            coverage_data = collect e gcda_files
        in
        if coverage_data = [] then
          (header @ found @ [Text ''Could not parse coverage data''], None)
        else
          let total_lines = sum_list (map total coverage_data);
              covered_lines = sum_list (map covered coverage_data)
          in
          case percent_of covered_lines total_lines of
            Inl ex \<Rightarrow> (header @ found, Some ex)
          | Inr overall_percentage \<Rightarrow>
              let overall = [Overall overall_percentage,
                             CoveredLines covered_lines total_lines, Text []];
                  categories = group_by_category coverage_data;
                  table_head = [Text ''Coverage by Category:'', rule_line (CHR ''-''),
                                Text (ljust 30 ''Category'' @ '' '' @ ljust 15 ''Coverage''
                                      @ '' '' @ ljust 20 ''Lines''),
                                rule_line (CHR ''-'')];
                  (rows, r) = category_rows categories (sort (map fst categories))
              in
              case r of
                Some ex \<Rightarrow> (header @ found @ overall @ table_head @ rows, Some ex)
              | None \<Rightarrow>
                  (header @ found @ overall @ table_head @ rows
                   @ [Text [], Text ''Top 10 Best Covered Files:'', rule_line (CHR ''-'')]
                   @ map file_row (top_files coverage_data)
                   @ [Text []]
                   @ needs_improvement coverage_data
                   @ footer,
                   None))"

text \<open>
  The \<^verbatim>\<open>print\<close> statements, one after the other. No \<^verbatim>\<open>print\<close> of the script is inside a
  \<^verbatim>\<open>try\<close>: the first one that raises ends the run, with the lines printed before it.
\<close>

fun print_lines ::
  "(line list \<Rightarrow> line \<Rightarrow> pyexn option) \<Rightarrow> line list \<Rightarrow> line list \<Rightarrow> line list \<times> pyexn option"
where
  "print_lines pr out [] = (out, None)"
| "print_lines pr out (l # ls) =
     (case pr out l of
        Some ex \<Rightarrow> (out, Some ex)
      | None \<Rightarrow> print_lines pr (out @ [l]) ls)"




subsection \<open>The two lines of the coverage tool\<close>

text \<open>
  The specification's description of what extraction looks for, independent of the
  matcher: text that starts with a line \<^verbatim>\<open>File '<path>'\<close>, the path being non-empty and
  free of quotes; text that starts with a line \<^verbatim>\<open>Lines executed:<percent>% of <total>\<close>,
  the percent being digits, a dot and digits, and the total being all the digits that
  follow. The first line of either kind in a text is the one that starts leftmost.
\<close>

definition digits :: "string \<Rightarrow> bool" where
  "digits ds \<longleftrightarrow> ds \<noteq> [] \<and> list_all is_digit ds"

definition file_line_at :: "string \<Rightarrow> string \<Rightarrow> bool" where
  "file_line_at s path \<longleftrightarrow>
     path \<noteq> [] \<and> quote \<notin> set path \<and> startswith (''File '' @ [quote] @ path @ [quote]) s"

definition percent_text :: "string \<Rightarrow> bool" where
  "percent_text p =
     (let ip = takeWhile is_digit p
      in digits ip \<and>
         (case drop (length ip) p of [] \<Rightarrow> False | c # fp \<Rightarrow> c = CHR ''.'' \<and> digits fp))"

definition coverage_line_at :: "string \<Rightarrow> string \<Rightarrow> string \<Rightarrow> bool" where
  "coverage_line_at s percent tot \<longleftrightarrow>
     percent_text percent \<and> digits tot \<and>
     (let m = ''Lines executed:'' @ percent @ ''% of '' @ tot
      in startswith m s \<and> takeWhile is_digit (drop (length m) s) = [])"

definition first_file_line :: "string \<Rightarrow> string \<Rightarrow> bool" where
  "first_file_line s path \<longleftrightarrow>
     (\<exists>i\<le>length s. file_line_at (drop i s) path
        \<and> (\<forall>j<i. \<forall>p. \<not> file_line_at (drop j s) p))"

definition no_file_line :: "string \<Rightarrow> bool" where
  "no_file_line s \<longleftrightarrow> (\<forall>i\<le>length s. \<forall>p. \<not> file_line_at (drop i s) p)"

definition first_coverage_line :: "string \<Rightarrow> string \<Rightarrow> string \<Rightarrow> bool" where
  "first_coverage_line s percent tot \<longleftrightarrow>
     (\<exists>i\<le>length s. coverage_line_at (drop i s) percent tot
        \<and> (\<forall>j<i. \<forall>p t. \<not> coverage_line_at (drop j s) p t))"

definition no_coverage_line :: "string \<Rightarrow> bool" where
  "no_coverage_line s \<longleftrightarrow> (\<forall>i\<le>length s. \<forall>p t. \<not> coverage_line_at (drop i s) p t)"

text \<open>
  The text that the coverage tool prints for one source file, and a coverage tool that
  answers every artifact alike.
\<close>

definition tool_output :: "string \<Rightarrow> string \<Rightarrow> string \<Rightarrow> string" where
  "tool_output path percent tot =
     ''File '' @ [quote] @ path @ [quote] @ [CHR 0x0A]
     @ ''Lines executed:'' @ percent @ ''% of '' @ tot @ [CHR 0x0A]"


definition always :: "run_result \<Rightarrow> string \<Rightarrow> run_result" where
  "always result gcda_file = result"

text \<open>A coverage tool that answers the artifacts of a table, and fails on every other.\<close>

definition by_name :: "(string \<times> run_result) list \<Rightarrow> string \<Rightarrow> run_result" where
  "by_name table gcda_file =
     (case map_of table gcda_file of Some result \<Rightarrow> result | None \<Rightarrow> Raised OSError)"

subsection \<open>Sample runs\<close>

text \<open>
  A standard output that takes everything, and one that encodes to ASCII: it refuses a
  line that shows a character beyond code point 127. The numbers of a line are printed
  with ASCII digits and signs; the other characters of a line are its text, its category
  or its file name.
\<close>

definition any_stdout :: "line list \<Rightarrow> line \<Rightarrow> pyexn option" where
  "any_stdout out l = None"



definition flushes :: "bool \<Rightarrow> line list \<Rightarrow> bool" where
  "flushes b out = b"

text \<open>
  Six worlds for the script: three artifacts in two directories, of which two files have
  the same percentage; a build directory without artifacts; an artifact on which the tool
  cannot be run; an artifact whose file has no lines; an artifact whose file name has an
  accented letter, with a standard output that encodes to ASCII; and the three artifacts
  again with a standard output that is a full device, on which the flush fails.
\<close>

definition example_env :: env where
  "example_env =
     \<lparr>os_walk = [(''build'', [''combat.gcda'', ''combat.o'']),
                 (''build/utils'', [''log.gcda'', ''str.gcda''])],
      run_gcov = by_name
        [(''build/combat.gcda'',
            Completed (tool_output ''src/game/combat/hit.c'' ''10.00'' ''20'') []),
         (''build/utils/log.gcda'',
            Completed (tool_output ''src/utils/log.c'' ''90.00'' ''10'') []),
         (''build/utils/str.gcda'',
            Completed (tool_output ''src/utils/str.c'' ''90.00'' ''100'') [])],
      int_max_str_digits = 4300,
      stdout_print = any_stdout, stdout_flush = flushes True\<rparr>"



definition zero_env :: env where
  "zero_env =
     \<lparr>os_walk = [(''build'', [''a.gcda''])],
      run_gcov = always (Completed (tool_output ''a.c'' ''150.00'' ''0'') []),
      int_max_str_digits = 4300,
      stdout_print = any_stdout, stdout_flush = flushes True\<rparr>"



section \<open>Properties\<close>

subsection \<open>Substring membership\<close>

lemma startswith_iff: "startswith p s \<longleftrightarrow> (\<exists>post. s = p @ post)"
  by (induction p s rule: startswith.induct) auto

lemma py_in_iff: "py_in sub s \<longleftrightarrow> (\<exists>pre post. s = pre @ sub @ post)"
proof (induction s)
  case Nil
  then show ?case by auto
next
  case (Cons c cs)
  show ?case
  proof
    assume "py_in sub (c # cs)"
    then consider "startswith sub (c # cs)" | "py_in sub cs" by auto
    then show "\<exists>pre post. c # cs = pre @ sub @ post"
    proof cases
      case 1
      then obtain post where "c # cs = sub @ post" by (auto simp: startswith_iff)
      then have "c # cs = [] @ sub @ post" by simp
      then show ?thesis by blast
    next
      case 2
      then obtain pre post where "cs = pre @ sub @ post" using Cons.IH by auto
      then have "c # cs = (c # pre) @ sub @ post" by simp
      then show ?thesis by blast
    qed
  next
    assume "\<exists>pre post. c # cs = pre @ sub @ post"
    then obtain pre post where eq: "c # cs = pre @ sub @ post" by auto
    show "py_in sub (c # cs)"
    proof (cases pre)
      case Nil
      with eq have "startswith sub (c # cs)" by (auto simp: startswith_iff)
      then show ?thesis by simp
    next
      case (Cons a pre')
      with eq have "cs = pre' @ sub @ post" by simp
      then have "py_in sub cs" using Cons.IH by blast
      then show ?thesis by simp
    qed
  qed
qed

subsection \<open>Classification\<close>

lemma categorize_first_rule: "categorize path = first_rule category_rules path"
  by (simp add: categorize_def category_rules_def)

lemma categorize_label: "categorize path \<in> set category_labels"
  by (simp add: categorize_def category_labels_def)

lemma category_labels_eleven: "distinct category_labels \<and> length category_labels = 11"
  by (simp add: category_labels_def)

text \<open>
  C3. Classification is total on paths: every path receives exactly one of the eleven
  labels, and the label is the one of the first rule, in the fixed order, one of whose
  fragments occurs in the path, the catch-all label when none does.
\<close>

theorem C3_classification_total:
  "(\<exists>!l. l \<in> set category_labels \<and> categorize path = l)
   \<and> distinct category_labels \<and> length category_labels = 11
   \<and> categorize path = first_rule category_rules path"
  using categorize_label [of path] categorize_first_rule [of path] category_labels_eleven
  by auto

theorem C3_classification_witness:
  "categorize ''src/core/commands/help.c'' = ''Core Systems''
   \<and> (\<exists>!l. l \<in> set category_labels \<and> categorize ''src/core/commands/help.c'' = l)
   \<and> first_rule category_rules ''src/core/commands/help.c'' = ''Core Systems''"
proof -
  have at_path: "categorize ''src/core/commands/help.c'' = ''Core Systems''"
    by (simp add: categorize_def)
  have rules: "first_rule category_rules ''src/core/commands/help.c'' = ''Core Systems''"
    using C3_classification_total [of "''src/core/commands/help.c''"] at_path by simp
  from C3_classification_total [of "''src/core/commands/help.c''"]
  have "\<exists>!l. l \<in> set category_labels \<and> categorize ''src/core/commands/help.c'' = l"
    by (rule conjunct1)
  with at_path rules show ?thesis by blast
qed

subsection \<open>Aggregation by category\<close>

lemma add_to_category_covered:
  "sum_list (map (\<lambda>kb. covered_sum (snd kb)) (add_to_category c d cats))
   = sum_list (map (\<lambda>kb. covered_sum (snd kb)) cats) + covered d"
  by (induction cats) auto

lemma add_to_category_total:
  "sum_list (map (\<lambda>kb. total_sum (snd kb)) (add_to_category c d cats))
   = sum_list (map (\<lambda>kb. total_sum (snd kb)) cats) + total d"
  by (induction cats) auto

lemma add_to_category_keys:
  "set (map fst (add_to_category c d cats)) = insert c (set (map fst cats))"
proof (induction cats)
  case Nil
  then show ?case by simp
next
  case (Cons kb cats)
  obtain k b where kb: "kb = (k, b)" by (cases kb)
  show ?case
  proof (cases "k = c")
    case True
    with kb show ?thesis by auto
  next
    case False
    have "set (map fst (add_to_category c d (kb # cats)))
          = insert k (set (map fst (add_to_category c d cats)))"
      using False kb by simp
    also have "\<dots> = insert k (insert c (set (map fst cats)))"
      by (simp only: Cons.IH)
    finally show ?thesis using kb by auto
  qed
qed

lemma add_to_category_distinct:
  "distinct (map fst cats) \<Longrightarrow> distinct (map fst (add_to_category c d cats))"
proof (induction cats)
  case Nil
  then show ?case by simp
next
  case (Cons kb cats)
  obtain k b where kb: "kb = (k, b)" by (cases kb)
  show ?case
  proof (cases "k = c")
    case True
    with Cons.prems kb show ?thesis by simp
  next
    case False
    have "k \<notin> set (map fst (add_to_category c d cats))"
      using Cons.prems False kb by (simp only: add_to_category_keys) auto
    with Cons False kb show ?thesis by simp
  qed
qed

lemma lookup_add_to_category:
  "lookup (add_to_category c d cats) k =
     (if k = c
      then \<lparr>covered_sum = covered_sum (lookup cats k) + covered d,
             total_sum = total_sum (lookup cats k) + total d\<rparr>
      else lookup cats k)"
  by (induction cats) (auto simp: lookup_def)

lemma foldl_add_covered:
  "sum_list (map (\<lambda>kb. covered_sum (snd kb))
       (foldl (\<lambda>categories d. add_to_category (categorize (file_name d)) d categories) cats ds))
   = sum_list (map (\<lambda>kb. covered_sum (snd kb)) cats) + sum_list (map covered ds)"
  by (induction ds arbitrary: cats) (simp_all add: add_to_category_covered)

lemma foldl_add_total:
  "sum_list (map (\<lambda>kb. total_sum (snd kb))
       (foldl (\<lambda>categories d. add_to_category (categorize (file_name d)) d categories) cats ds))
   = sum_list (map (\<lambda>kb. total_sum (snd kb)) cats) + sum_list (map total ds)"
  by (induction ds arbitrary: cats) (simp_all add: add_to_category_total)

lemma foldl_add_distinct:
  "distinct (map fst cats) \<Longrightarrow>
   distinct (map fst
       (foldl (\<lambda>categories d. add_to_category (categorize (file_name d)) d categories) cats ds))"
  by (induction ds arbitrary: cats) (simp_all add: add_to_category_distinct)

lemma foldl_add_keys:
  "set (map fst
       (foldl (\<lambda>categories d. add_to_category (categorize (file_name d)) d categories) cats ds))
   = set (map fst cats) \<union> (\<lambda>d. categorize (file_name d)) ` set ds"
  by (induction ds arbitrary: cats) (simp_all add: add_to_category_keys del: set_map)

lemma foldl_add_lookup:
  "lookup (foldl (\<lambda>categories d. add_to_category (categorize (file_name d)) d categories) cats ds) k
   = \<lparr>covered_sum = covered_sum (lookup cats k)
          + sum_list (map covered (filter (\<lambda>d. categorize (file_name d) = k) ds)),
        total_sum = total_sum (lookup cats k)
          + sum_list (map total (filter (\<lambda>d. categorize (file_name d) = k) ds))\<rparr>"
  by (induction ds arbitrary: cats) (auto simp: lookup_add_to_category)

lemma group_by_category_keys:
  "set (map fst (group_by_category ds)) = (\<lambda>d. categorize (file_name d)) ` set ds"
  unfolding group_by_category_def by (simp only: foldl_add_keys) simp

lemma group_by_category_distinct: "distinct (map fst (group_by_category ds))"
  unfolding group_by_category_def by (rule foldl_add_distinct) simp

text \<open>
  C8. The categories partition the overall aggregate. Every category is listed once, the
  bucket of a category holds the sums over exactly the records classified into it, and
  the buckets together add up to the overall sums of covered and of total lines.
\<close>

theorem C8_categories_partition:
  "sum_list (map (\<lambda>kb. covered_sum (snd kb)) (group_by_category ds)) = sum_list (map covered ds)
   \<and> sum_list (map (\<lambda>kb. total_sum (snd kb)) (group_by_category ds)) = sum_list (map total ds)
   \<and> distinct (map fst (group_by_category ds))
   \<and> lookup (group_by_category ds) k =
       \<lparr>covered_sum = sum_list (map covered (filter (\<lambda>d. categorize (file_name d) = k) ds)),
        total_sum = sum_list (map total (filter (\<lambda>d. categorize (file_name d) = k) ds))\<rparr>"
proof -
  have "lookup [] k = \<lparr>covered_sum = 0, total_sum = 0\<rparr>"
    by (simp add: lookup_def)
  then show ?thesis
    unfolding group_by_category_def
    by (simp add: foldl_add_covered foldl_add_total foldl_add_distinct foldl_add_lookup)
qed

subsection \<open>Rounding to binary64\<close>

lemma pow2_powi: "pow2 e = 2 powi e"
  by (simp add: pow2_def power_int_def power_one_over)

lemma pow2_pos: "0 < pow2 e"
  by (simp add: pow2_powi)

lemma pow2_add: "pow2 (a + b) = pow2 a * pow2 b"
  by (simp add: pow2_powi power_int_add)

lemma pow2_mono: "a \<le> b \<Longrightarrow> pow2 a \<le> pow2 b"
  by (simp add: pow2_powi power_int_increasing)

lemma pow2_strict_mono: "a < b \<Longrightarrow> pow2 a < pow2 b"
  by (simp add: pow2_powi power_int_strict_increasing)

lemma pow2_le_imp_le: "pow2 a \<le> pow2 b \<Longrightarrow> a \<le> b"
  using pow2_strict_mono [of b a] by (cases "a \<le> b") auto

lemma pow2_of_nat: "0 \<le> e \<Longrightarrow> pow2 e = of_int (2 ^ nat e)"
  by (simp add: pow2_def)

lemma ilog2_le:
  assumes "0 < x"
  shows "pow2 (ilog2 x) \<le> x"
proof -
  obtain a b where q: "quotient_of x = (a, b)" by (cases "quotient_of x")
  then have b: "0 < b" and x: "x = of_int a / of_int b"
    using quotient_of_denom_pos quotient_of_div by auto
  from assms x b have a: "0 < a"
    by (simp add: zero_less_divide_iff)
  define e where "e = bitlen a - bitlen b"
  show ?thesis
  proof (cases "pow2 e \<le> x")
    case True
    then show ?thesis by (simp add: ilog2_def q e_def)
  next
    case False
    then have il: "ilog2 x = e - 1" by (simp add: ilog2_def q e_def)
    have la: "1 \<le> bitlen a" using a bitlen_eq_zero_iff [of a] bitlen_nonneg [of a] by linarith
    have lb: "1 \<le> bitlen b" using b bitlen_eq_zero_iff [of b] bitlen_nonneg [of b] by linarith
    have "2 ^ nat (bitlen a - 1) \<le> a" using bitlen_bounds [OF a] by simp
    then have "(of_int (2 ^ nat (bitlen a - 1)) :: rat) \<le> of_int a"
      by (simp only: of_int_le_iff)
    then have A: "pow2 (bitlen a - 1) \<le> of_int a"
      using la by (simp add: pow2_of_nat)
    have "b < 2 ^ nat (bitlen b)" using bitlen_bounds [OF b] by simp
    then have "(of_int b :: rat) < of_int (2 ^ nat (bitlen b))"
      by (simp only: of_int_less_iff)
    then have B: "of_int b \<le> pow2 (bitlen b)"
      using lb by (simp add: pow2_of_nat)
    have "pow2 (e - 1) * pow2 (bitlen b) = pow2 (bitlen a - 1)"
      by (simp add: e_def flip: pow2_add)
    moreover have "pow2 (e - 1) * of_int b \<le> pow2 (e - 1) * pow2 (bitlen b)"
      using B pow2_pos [of "e - 1"] by (simp add: mult_left_mono)
    ultimately have "pow2 (e - 1) * of_int b \<le> of_int a"
      using A by linarith
    then have "pow2 (e - 1) \<le> x"
      using b by (simp add: x pos_le_divide_eq)
    with il show ?thesis by simp
  qed
qed

lemma round_half_even_le: "x \<le> of_int M \<Longrightarrow> round_half_even x \<le> M"
proof -
  assume le: "x \<le> of_int M"
  show ?thesis
  proof (cases "x = of_int M")
    case True
    then show ?thesis by (simp add: round_half_even_def)
  next
    case False
    with le have "x < of_int M" by simp
    then have "\<lfloor>x\<rfloor> < M" by (simp add: floor_less_iff)
    then show ?thesis by (simp add: round_half_even_def Let_def)
  qed
qed

lemma round_half_even_ge: "of_int M \<le> x \<Longrightarrow> M \<le> round_half_even x"
proof -
  assume "of_int M \<le> x"
  then have "M \<le> \<lfloor>x\<rfloor>" by (simp add: le_floor_iff)
  then show ?thesis by (simp add: round_half_even_def Let_def)
qed

lemma round_half_even_of_int: "round_half_even (of_int n) = n"
  by (simp add: round_half_even_def)


lemma to_double_cases:
  assumes "0 < x"
  obtains e n where "e = max (ilog2 x) (- 1022)" "n = round_half_even (x / pow2 (e - 52))"
    "to_double x = (if pow2 1024 \<le> of_int n * pow2 (e - 52) then PInf
                    else Fin (of_int n * pow2 (e - 52)))"
  using assms by (simp add: to_double_def Let_def)

lemma to_double_zero: "to_double 0 = Fin 0"
  by (simp add: to_double_def)

lemma to_double_nonneg:
  assumes "0 \<le> x"
  shows "to_double x = PInf \<or> (\<exists>r. to_double x = Fin r \<and> 0 \<le> r)"
proof (cases "x = 0")
  case True
  then show ?thesis by (simp add: to_double_zero)
next
  case False
  with assms have pos: "0 < x" by simp
  obtain e n where n: "n = round_half_even (x / pow2 (e - 52))"
    and t: "to_double x = (if pow2 1024 \<le> of_int n * pow2 (e - 52) then PInf
                    else Fin (of_int n * pow2 (e - 52)))"
    using to_double_cases [OF pos] by blast
  have "0 \<le> x / pow2 (e - 52)" using pos pow2_pos [of "e - 52"] by simp
  then have "0 \<le> n" using round_half_even_ge [of 0] n by simp
  then have "(0::rat) \<le> of_int n * pow2 (e - 52)" using pow2_pos [of "e - 52"] by simp
  with t show ?thesis by auto
qed

lemma to_double_le_pow2:
  assumes "0 \<le> x" "x \<le> pow2 k" "- 1074 \<le> k" "k < 1024"
  shows "\<exists>r. to_double x = Fin r \<and> 0 \<le> r \<and> r \<le> pow2 k"
proof (cases "x = 0")
  case True
  then show ?thesis using pow2_pos [of k] by (simp add: to_double_zero less_imp_le)
next
  case False
  with assms have pos: "0 < x" by simp
  obtain e n where e: "e = max (ilog2 x) (- 1022)" and n: "n = round_half_even (x / pow2 (e - 52))"
    and t: "to_double x = (if pow2 1024 \<le> of_int n * pow2 (e - 52) then PInf
                    else Fin (of_int n * pow2 (e - 52)))"
    using to_double_cases [OF pos] by blast
  let ?q = "pow2 (e - 52)"
  have qpos: "0 < ?q" by (rule pow2_pos)
  have "pow2 (ilog2 x) \<le> pow2 k" using ilog2_le [OF pos] assms(2) by simp
  then have "ilog2 x \<le> k" by (rule pow2_le_imp_le)
  with e assms(3) have ek: "0 \<le> k - (e - 52)" by simp
  have split: "pow2 k = pow2 (k - (e - 52)) * ?q" by (simp flip: pow2_add)
  have "x / ?q \<le> pow2 (k - (e - 52))"
    using assms(2) qpos by (simp add: split pos_divide_le_eq)
  then have "x / ?q \<le> of_int (2 ^ nat (k - (e - 52)))"
    using ek by (simp add: pow2_of_nat)
  then have "n \<le> 2 ^ nat (k - (e - 52))" unfolding n by (rule round_half_even_le)
  then have "(of_int n :: rat) \<le> of_int (2 ^ nat (k - (e - 52)))" by (simp only: of_int_le_iff)
  then have "(of_int n :: rat) \<le> pow2 (k - (e - 52))" using ek by (simp add: pow2_of_nat)
  then have le: "of_int n * ?q \<le> pow2 k" using qpos by (simp add: split mult_right_mono)
  have "0 \<le> x / ?q" using pos qpos by simp
  then have "0 \<le> n" using round_half_even_ge [of 0] n by simp
  then have nonneg: "(0::rat) \<le> of_int n * ?q" using qpos by simp
  have "pow2 k < pow2 1024" using assms(4) by (rule pow2_strict_mono)
  with le have "\<not> pow2 1024 \<le> of_int n * ?q" by simp
  with t le nonneg show ?thesis by simp
qed

lemma to_double_of_int:
  assumes "0 \<le> n" "n < 2 ^ 53"
  shows "to_double (of_int n) = Fin (of_int n)"
proof (cases "n = 0")
  case True
  then show ?thesis by (simp add: to_double_zero)
next
  case False
  with assms have pos: "(0::rat) < of_int n" by simp
  obtain e m where e: "e = max (ilog2 (of_int n)) (- 1022)"
    and m: "m = round_half_even (of_int n / pow2 (e - 52))"
    and t: "to_double (of_int n) = (if pow2 1024 \<le> of_int m * pow2 (e - 52) then PInf
                    else Fin (of_int m * pow2 (e - 52)))"
    using to_double_cases [OF pos] by blast
  let ?q = "pow2 (e - 52)"
  have qpos: "0 < ?q" by (rule pow2_pos)
  from assms(2) have "(of_int n :: rat) < of_int (2 ^ 53)" by (simp only: of_int_less_iff)
  then have n53: "(of_int n :: rat) < pow2 53" by (simp add: pow2_def)
  have "pow2 (ilog2 (of_int n)) < pow2 53" using ilog2_le [OF pos] n53 by simp
  then have "ilog2 (of_int n) < 53" using pow2_mono [of 53 "ilog2 (of_int n)"] by (cases "ilog2 (of_int n) < 53") auto
  with e have e52: "0 \<le> 52 - e" by simp
  have one: "pow2 (52 - e) * ?q = 1"
    using pow2_add [of "52 - e" "e - 52"] by (simp add: pow2_def)
  then have "of_int n / ?q = of_int n * pow2 (52 - e)"
    using qpos by (simp add: divide_eq_eq mult.assoc)
  also have "\<dots> = of_int (n * 2 ^ nat (52 - e))" using e52 by (simp add: pow2_of_nat)
  finally have "m = n * 2 ^ nat (52 - e)" unfolding m by (simp only: round_half_even_of_int)
  then have "(of_int m :: rat) = of_int n * pow2 (52 - e)" using e52 by (simp add: pow2_of_nat)
  then have r: "of_int m * ?q = of_int n" using one by (simp add: mult.assoc)
  have "pow2 53 < pow2 1024" by (rule pow2_strict_mono) simp
  with n53 have "\<not> pow2 1024 \<le> (of_int n :: rat)" by simp
  with t r show ?thesis by simp
qed

lemma to_double_ge_int:
  assumes "0 \<le> N" "N < 2 ^ 53" "of_int N \<le> x"
  shows "to_double x = PInf \<or> (\<exists>r. to_double x = Fin r \<and> of_int N \<le> r)"
proof (cases "x = 0")
  case True
  with assms show ?thesis by (simp add: to_double_zero)
next
  case False
  with assms have pos: "0 < x" by simp
  obtain e n where e: "e = max (ilog2 x) (- 1022)" and n: "n = round_half_even (x / pow2 (e - 52))"
    and t: "to_double x = (if pow2 1024 \<le> of_int n * pow2 (e - 52) then PInf
                    else Fin (of_int n * pow2 (e - 52)))"
    using to_double_cases [OF pos] by blast
  let ?q = "pow2 (e - 52)"
  have qpos: "0 < ?q" by (rule pow2_pos)
  from assms(2) have "(of_int N :: rat) < of_int (2 ^ 53)" by (simp only: of_int_less_iff)
  then have n53: "(of_int N :: rat) < pow2 53" by (simp add: pow2_def)
  have "of_int N \<le> of_int n * ?q"
  proof (cases "e \<le> 52")
    case True
    then have e52: "0 \<le> 52 - e" by simp
    have one: "pow2 (52 - e) * ?q = 1"
      using pow2_add [of "52 - e" "e - 52"] by (simp add: pow2_def)
    then have "of_int N / ?q = of_int N * pow2 (52 - e)"
      using qpos by (simp add: divide_eq_eq mult.assoc)
    also have "\<dots> = of_int (N * 2 ^ nat (52 - e))" using e52 by (simp add: pow2_of_nat)
    finally have eq: "of_int N / ?q = of_int (N * 2 ^ nat (52 - e))" .
    have "of_int N / ?q \<le> x / ?q"
      using assms(3) qpos by (simp add: divide_right_mono)
    then have "of_int (N * 2 ^ nat (52 - e)) \<le> x / ?q"
      by (simp only: eq)
    then have "N * 2 ^ nat (52 - e) \<le> n" unfolding n by (rule round_half_even_ge)
    then have "(of_int (N * 2 ^ nat (52 - e)) :: rat) \<le> of_int n" by (simp only: of_int_le_iff)
    then have "of_int N * pow2 (52 - e) \<le> (of_int n :: rat)" using e52 by (simp add: pow2_of_nat)
    then have "of_int N * pow2 (52 - e) * ?q \<le> of_int n * ?q"
      using qpos by (simp add: mult_right_mono)
    then show ?thesis using one by (simp add: mult.assoc)
  next
    case False
    then have big: "53 \<le> e" and el: "e = ilog2 x" using e by auto
    have "pow2 e \<le> x" using ilog2_le [OF pos] el by simp
    moreover have "pow2 e = pow2 52 * ?q" by (simp flip: pow2_add)
    ultimately have "pow2 52 \<le> x / ?q" using qpos by (simp add: pos_le_divide_eq)
    then have "of_int (2 ^ 52) \<le> x / ?q" by (simp add: pow2_def)
    then have "2 ^ 52 \<le> n" unfolding n by (rule round_half_even_ge)
    then have "(of_int (2 ^ 52) :: rat) \<le> of_int n" by (simp only: of_int_le_iff)
    then have "pow2 52 \<le> (of_int n :: rat)" by (simp add: pow2_def)
    then have "pow2 52 * ?q \<le> of_int n * ?q" using qpos by (simp add: mult_right_mono)
    then have "pow2 e \<le> of_int n * ?q" by (simp flip: pow2_add)
    moreover have "pow2 53 \<le> pow2 e" using big by (rule pow2_mono)
    ultimately show ?thesis using n53 by linarith
  qed
  with t show ?thesis by auto
qed

lemma to_double_le_int:
  assumes "0 \<le> x" "x \<le> of_int N" "N < 2 ^ 53"
  shows "\<exists>r. to_double x = Fin r \<and> 0 \<le> r \<and> r \<le> of_int N"
proof (cases "x = 0")
  case True
  with assms show ?thesis by (simp add: to_double_zero)
next
  case False
  with assms have pos: "0 < x" by simp
  obtain e n where e: "e = max (ilog2 x) (- 1022)" and n: "n = round_half_even (x / pow2 (e - 52))"
    and t: "to_double x = (if pow2 1024 \<le> of_int n * pow2 (e - 52) then PInf
                    else Fin (of_int n * pow2 (e - 52)))"
    using to_double_cases [OF pos] by blast
  let ?q = "pow2 (e - 52)"
  have qpos: "0 < ?q" by (rule pow2_pos)
  from assms(3) have "(of_int N :: rat) < of_int (2 ^ 53)" by (simp only: of_int_less_iff)
  then have n53: "(of_int N :: rat) < pow2 53" by (simp add: pow2_def)
  have "pow2 (ilog2 x) < pow2 53" using ilog2_le [OF pos] n53 assms(2) by simp
  then have "ilog2 x < 53" using pow2_mono [of 53 "ilog2 x"] by (cases "ilog2 x < 53") auto
  with e have e52: "0 \<le> 52 - e" by simp
  have one: "pow2 (52 - e) * ?q = 1"
    using pow2_add [of "52 - e" "e - 52"] by (simp add: pow2_def)
  then have "of_int N / ?q = of_int N * pow2 (52 - e)"
    using qpos by (simp add: divide_eq_eq mult.assoc)
  also have "\<dots> = of_int (N * 2 ^ nat (52 - e))" using e52 by (simp add: pow2_of_nat)
  finally have eq: "of_int N / ?q = of_int (N * 2 ^ nat (52 - e))" .
  have "x / ?q \<le> of_int N / ?q"
    using assms(2) qpos by (simp add: divide_right_mono)
  then have "x / ?q \<le> of_int (N * 2 ^ nat (52 - e))"
    by (simp only: eq)
  then have "n \<le> N * 2 ^ nat (52 - e)" unfolding n by (rule round_half_even_le)
  then have "(of_int n :: rat) \<le> of_int (N * 2 ^ nat (52 - e))" by (simp only: of_int_le_iff)
  then have "(of_int n :: rat) \<le> of_int N * pow2 (52 - e)" using e52 by (simp add: pow2_of_nat)
  then have "of_int n * ?q \<le> of_int N * pow2 (52 - e) * ?q"
    using qpos by (simp add: mult_right_mono)
  then have le: "of_int n * ?q \<le> of_int N" using one by (simp add: mult.assoc)
  have "0 \<le> x / ?q" using pos qpos by simp
  then have "0 \<le> n" using round_half_even_ge [of 0] n by simp
  then have nonneg: "(0::rat) \<le> of_int n * ?q" using qpos by simp
  have "pow2 53 < pow2 1024" by (rule pow2_strict_mono) simp
  with n53 le have "\<not> pow2 1024 \<le> of_int n * ?q" by simp
  with t le nonneg show ?thesis by simp
qed


lemma ilog2_less:
  assumes "0 < x"
  shows "x < pow2 (ilog2 x + 1)"
proof -
  obtain a b where q: "quotient_of x = (a, b)" by (cases "quotient_of x")
  then have b: "0 < b" and x: "x = of_int a / of_int b"
    using quotient_of_denom_pos quotient_of_div by auto
  from assms x b have a: "0 < a"
    by (simp add: zero_less_divide_iff)
  define e where "e = bitlen a - bitlen b"
  show ?thesis
  proof (cases "pow2 e \<le> x")
    case False
    then show ?thesis by (simp add: ilog2_def q e_def)
  next
    case True
    then have il: "ilog2 x = e" by (simp add: ilog2_def q e_def)
    have la: "1 \<le> bitlen a" using a bitlen_eq_zero_iff [of a] bitlen_nonneg [of a] by linarith
    have lb: "1 \<le> bitlen b" using b bitlen_eq_zero_iff [of b] bitlen_nonneg [of b] by linarith
    have "a < 2 ^ nat (bitlen a)" using bitlen_bounds [OF a] by simp
    then have "(of_int a :: rat) < of_int (2 ^ nat (bitlen a))"
      by (simp only: of_int_less_iff)
    then have A: "of_int a < pow2 (bitlen a)"
      using la by (simp add: pow2_of_nat)
    have "2 ^ nat (bitlen b - 1) \<le> b" using bitlen_bounds [OF b] by simp
    then have "(of_int (2 ^ nat (bitlen b - 1)) :: rat) \<le> of_int b"
      by (simp only: of_int_le_iff)
    then have B: "pow2 (bitlen b - 1) \<le> of_int b"
      using lb by (simp add: pow2_of_nat)
    have "pow2 (e + 1) * pow2 (bitlen b - 1) = pow2 (bitlen a)"
      by (simp add: e_def flip: pow2_add)
    moreover have "pow2 (e + 1) * pow2 (bitlen b - 1) \<le> pow2 (e + 1) * of_int b"
      using B pow2_pos [of "e + 1"] by (simp add: mult_left_mono)
    ultimately have "of_int a < pow2 (e + 1) * of_int b"
      using A by linarith
    then have "x < pow2 (e + 1)"
      using b by (simp add: x pos_divide_less_eq)
    with il show ?thesis by simp
  qed
qed

lemma ilog2_unique:
  assumes "pow2 e \<le> x" "x < pow2 (e + 1)"
  shows "ilog2 x = e"
proof -
  have pos: "0 < x" using assms(1) pow2_pos [of e] by simp
  have "pow2 (ilog2 x) < pow2 (e + 1)" using ilog2_le [OF pos] assms(2) by simp
  then have "ilog2 x < e + 1"
    using pow2_mono [of "e + 1" "ilog2 x"] by (cases "ilog2 x < e + 1") auto
  moreover have "pow2 e < pow2 (ilog2 x + 1)" using ilog2_less [OF pos] assms(1) by simp
  then have "e < ilog2 x + 1"
    using pow2_mono [of "ilog2 x + 1" e] by (cases "e < ilog2 x + 1") auto
  ultimately show ?thesis by simp
qed

text \<open>Rounding at a given number, with the exponent supplied.\<close>

lemma to_double_at:
  assumes "pow2 e \<le> x" "x < pow2 (e + 1)" "- 1022 \<le> e"
    and "round_half_even (x / pow2 (e - 52)) = n"
    and "of_int n * pow2 (e - 52) = r" "r < pow2 1024"
  shows "to_double x = Fin r"
proof -
  have pos: "0 < x" using assms(1) pow2_pos [of e] by simp
  have "ilog2 x = e" using assms(1,2) by (rule ilog2_unique)
  then have "max (ilog2 x) (- 1022) = e" using assms(3) by simp
  then show ?thesis using pos assms(4,5,6) by (simp add: to_double_def Let_def)
qed

lemma round_half_even_near:
  assumes "\<bar>x - of_int n\<bar> < 1 / 2"
  shows "round_half_even x = n"
proof (cases "of_int n \<le> x")
  case True
  with assms have "\<lfloor>x\<rfloor> = n" by (intro floor_unique) simp_all
  with assms True show ?thesis by (simp add: round_half_even_def Let_def)
next
  case False
  with assms have "\<lfloor>x\<rfloor> = n - 1" by (intro floor_unique) simp_all
  with assms False show ?thesis by (simp add: round_half_even_def Let_def)
qed

lemma to_double_near:
  assumes "pow2 e \<le> x" "x < pow2 (e + 1)" "- 1022 \<le> e"
    and "\<bar>x / pow2 (e - 52) - of_int n\<bar> < 1 / 2"
    and "of_int n * pow2 (e - 52) = r" "r < pow2 1024"
  shows "to_double x = Fin r"
  using assms(1,2,3) round_half_even_near [OF assms(4)] assms(5,6) by (rule to_double_at)

lemma to_double_overflow:
  assumes "pow2 1024 \<le> x"
  shows "to_double x = PInf"
proof -
  have pos: "0 < x" using assms pow2_pos [of 1024] by simp
  obtain e n where e: "e = max (ilog2 x) (- 1022)" and n: "n = round_half_even (x / pow2 (e - 52))"
    and t: "to_double x = (if pow2 1024 \<le> of_int n * pow2 (e - 52) then PInf
                    else Fin (of_int n * pow2 (e - 52)))"
    using to_double_cases [OF pos] by blast
  let ?q = "pow2 (e - 52)"
  have qpos: "0 < ?q" by (rule pow2_pos)
  have "pow2 1024 < pow2 (ilog2 x + 1)" using ilog2_less [OF pos] assms by simp
  then have "1024 < ilog2 x + 1"
    using pow2_mono [of "ilog2 x + 1" 1024] by (cases "1024 < ilog2 x + 1") auto
  then have big: "1024 \<le> e" and el: "e = ilog2 x" using e by auto
  have "pow2 e \<le> x" using ilog2_le [OF pos] el by simp
  moreover have "pow2 e = pow2 52 * ?q" by (simp flip: pow2_add)
  ultimately have "pow2 52 \<le> x / ?q" using qpos by (simp add: pos_le_divide_eq)
  then have "of_int (2 ^ 52) \<le> x / ?q" by (simp add: pow2_def)
  then have "2 ^ 52 \<le> n" unfolding n by (rule round_half_even_ge)
  then have "(of_int (2 ^ 52) :: rat) \<le> of_int n" by (simp only: of_int_le_iff)
  then have "pow2 52 \<le> (of_int n :: rat)" by (simp add: pow2_def)
  then have "pow2 52 * ?q \<le> of_int n * ?q" using qpos by (simp add: mult_right_mono)
  then have "pow2 e \<le> of_int n * ?q" by (simp flip: pow2_add)
  moreover have "pow2 1024 \<le> pow2 e" using big by (rule pow2_mono)
  ultimately show ?thesis using t by simp
qed

subsection \<open>The matcher on the two patterns\<close>

lemma startswith_drop: "startswith p s \<Longrightarrow> s = p @ drop (length p) s"
  by (auto simp: startswith_iff)

lemma rmatch_lits:
  "rmatch (map (\<lambda>c. One (Lit c)) lit @ ps) s gs cur =
     (if startswith lit s
      then rmatch ps (drop (length lit) s) gs (map_option (\<lambda>g. g @ lit) cur)
      else None)"
proof (induction lit arbitrary: s cur)
  case Nil
  show ?case by (cases cur) simp_all
next
  case (Cons a lit)
  show ?case
  proof (cases s)
    case Nil
    then show ?thesis by simp
  next
    case s: (Cons x xs)
    show ?thesis
    proof (cases cur)
      case None
      then show ?thesis by (simp add: s Cons.IH)
    next
      case (Some g)
      then show ?thesis by (simp add: s Cons.IH)
    qed
  qed
qed

lemma take_run: "take (length (takeWhile P s)) s = takeWhile P s"
  by (rule takeWhile_eq_take [symmetric])

lemma drop_run: "drop (length (takeWhile P s)) s = dropWhile P s"
  by (rule dropWhile_eq_drop [symmetric])

lemma rplus_all_fail:
  "(\<And>k. 0 < k \<Longrightarrow> k \<le> m \<Longrightarrow>
      rmatch ps (drop k s) gs (map_option (\<lambda>g. g @ take k s) cur) = None) \<Longrightarrow>
   rplus c ps s gs cur m = None"
  by (induction m) simp_all

lemma rplus_longest:
  assumes "\<And>k. 0 < k \<Longrightarrow> k < n \<Longrightarrow>
      rmatch ps (drop k s) gs (map_option (\<lambda>g. g @ take k s) cur) = None"
  shows "rplus c ps s gs cur n =
     (if n = 0 then None else rmatch ps (drop n s) gs (map_option (\<lambda>g. g @ take n s) cur))"
proof (cases n)
  case 0
  then show ?thesis by simp
next
  case (Suc m)
  have "rplus c ps s gs cur m = None"
    using assms Suc by (intro rplus_all_fail) simp
  then show ?thesis using Suc by (simp split: option.splits)
qed

lemma run_nth:
  assumes "k < length (takeWhile P s)"
  shows "drop k s = s ! k # drop (Suc k) s \<and> P (s ! k)"
proof -
  have "k < length s" using assms length_takeWhile_le [of P s] by (rule less_le_trans)
  then have "drop k s = s ! k # drop (Suc k) s" by (simp add: Cons_nth_drop_Suc)
  moreover have "takeWhile P s ! k \<in> set (takeWhile P s)" using assms by simp
  then have "P (s ! k)" using assms by (auto simp: takeWhile_nth dest: set_takeWhileD)
  ultimately show ?thesis by simp
qed

lemma rplus_then_lit:
  assumes "\<And>x. cmatch c x \<Longrightarrow> x \<noteq> ch"
  shows "rplus c (One (Lit ch) # ps) s gs cur (length (takeWhile (cmatch c) s)) =
     (if takeWhile (cmatch c) s = [] then None
      else rmatch (One (Lit ch) # ps) (dropWhile (cmatch c) s) gs
             (map_option (\<lambda>g. g @ takeWhile (cmatch c) s) cur))"
proof -
  have "rmatch (One (Lit ch) # ps) (drop k s) gs (map_option (\<lambda>g. g @ take k s) cur) = None"
    if "k < length (takeWhile (cmatch c) s)" for k
    using run_nth [OF that] assms by auto
  then show ?thesis
    by (subst rplus_longest) (simp_all add: take_run drop_run)
qed

lemma rplus_then_close_lit:
  assumes "\<And>x. cmatch c x \<Longrightarrow> x \<noteq> ch"
  shows "rplus c (GClose # One (Lit ch) # ps) s gs cur (length (takeWhile (cmatch c) s)) =
     (if takeWhile (cmatch c) s = [] then None
      else rmatch (GClose # One (Lit ch) # ps) (dropWhile (cmatch c) s) gs
             (map_option (\<lambda>g. g @ takeWhile (cmatch c) s) cur))"
proof -
  have "rmatch (GClose # One (Lit ch) # ps) (drop k s) gs (map_option (\<lambda>g. g @ take k s) cur) = None"
    if "k < length (takeWhile (cmatch c) s)" for k
    using run_nth [OF that] assms by (cases cur) auto
  then show ?thesis
    by (subst rplus_longest) (simp_all add: take_run drop_run)
qed

lemma rplus_then_close:
  "rplus c [GClose] s gs (Some g) (length (takeWhile (cmatch c) s)) =
     (if takeWhile (cmatch c) s = [] then None else Some (gs @ [g @ takeWhile (cmatch c) s]))"
proof (cases "length (takeWhile (cmatch c) s)")
  case 0
  then show ?thesis by simp
next
  case (Suc m)
  have "take (Suc m) s = takeWhile (cmatch c) s"
    using take_run [of "cmatch c" s] Suc by simp
  moreover have "takeWhile (cmatch c) s \<noteq> []" using Suc by auto
  ultimately show ?thesis using Suc by simp
qed


lemma re_search_None_iff:
  "re_search ps s = None \<longleftrightarrow> (\<forall>i\<le>length s. rmatch ps (drop i s) [] None = None)"
proof (induction s)
  case Nil
  then show ?case by simp
next
  case (Cons c cs)
  have "(\<forall>i\<le>length (c # cs). rmatch ps (drop i (c # cs)) [] None = None)
        \<longleftrightarrow> rmatch ps (c # cs) [] None = None
            \<and> (\<forall>i\<le>length cs. rmatch ps (drop i cs) [] None = None)"
    (is "?L \<longleftrightarrow> ?R")
  proof
    assume l: ?L
    have "rmatch ps (drop 0 (c # cs)) [] None = None" using l by blast
    moreover have "rmatch ps (drop i cs) [] None = None" if "i \<le> length cs" for i
      using l [rule_format, of "Suc i"] that by simp
    ultimately show ?R by simp
  next
    assume r: ?R
    show ?L
    proof (intro allI impI)
      fix i assume "i \<le> length (c # cs)"
      then show "rmatch ps (drop i (c # cs)) [] None = None"
        using r by (cases i) auto
    qed
  qed
  then show ?case using Cons.IH by (simp split: option.splits)
qed

lemma re_search_Some_iff:
  "re_search ps s = Some gs \<longleftrightarrow>
     (\<exists>i\<le>length s. rmatch ps (drop i s) [] None = Some gs
        \<and> (\<forall>j<i. rmatch ps (drop j s) [] None = None))"
proof (induction s)
  case Nil
  then show ?case by simp
next
  case (Cons c cs)
  let ?P = "\<lambda>s i. rmatch ps (drop i s) [] None = Some gs
        \<and> (\<forall>j<i. rmatch ps (drop j s) [] None = None)"
  show ?case
  proof (cases "rmatch ps (c # cs) [] None")
    case None
    have "(\<exists>i\<le>length (c # cs). ?P (c # cs) i) \<longleftrightarrow> (\<exists>i\<le>length cs. ?P cs i)"
    proof
      assume "\<exists>i\<le>length (c # cs). ?P (c # cs) i"
      then obtain i where i: "i \<le> length (c # cs)" "?P (c # cs) i" by blast
      with None obtain i' where i': "i = Suc i'" by (cases i) auto
      have "rmatch ps (drop j cs) [] None = None" if "j < i'" for j
        using i(2) [THEN conjunct2, rule_format, of "Suc j"] that i' by simp
      with i i' have "i' \<le> length cs \<and> ?P cs i'" by simp
      then show "\<exists>i\<le>length cs. ?P cs i" by blast
    next
      assume "\<exists>i\<le>length cs. ?P cs i"
      then obtain i where i: "i \<le> length cs" "?P cs i" by blast
      have "rmatch ps (drop j (c # cs)) [] None = None" if "j < Suc i" for j
        using that i(2) None by (cases j) auto
      with i have "Suc i \<le> length (c # cs) \<and> ?P (c # cs) (Suc i)" by simp
      then show "\<exists>i\<le>length (c # cs). ?P (c # cs) i" by blast
    qed
    with None Cons.IH show ?thesis by simp
  next
    case (Some r)
    have "(\<exists>i\<le>length (c # cs). ?P (c # cs) i) \<longleftrightarrow> r = gs"
    proof
      assume "\<exists>i\<le>length (c # cs). ?P (c # cs) i"
      then obtain i where i: "i \<le> length (c # cs)" "?P (c # cs) i" by blast
      show "r = gs"
      proof (cases i)
        case 0
        with i Some show ?thesis by simp
      next
        case (Suc i')
        then have "rmatch ps (drop 0 (c # cs)) [] None = None" using i(2) by blast
        with Some show ?thesis by simp
      qed
    next
      assume "r = gs"
      with Some have "0 \<le> length (c # cs) \<and> ?P (c # cs) 0" by simp
      then show "\<exists>i\<le>length (c # cs). ?P (c # cs) i" by blast
    qed
    with Some show ?thesis by simp
  qed
qed

lemma cmatch_NotCh: "cmatch (NotCh c) = (\<lambda>x. x \<noteq> c)"
  by (rule ext) simp

lemma cmatch_Digit: "cmatch Digit = is_digit"
  by (rule ext) simp

lemma rmatch_file_re:
  "rmatch file_re s [] None =
     (if startswith (''File '' @ [quote]) s
      then (let r = drop (length (''File '' @ [quote])) s; path = takeWhile (\<lambda>x. x \<noteq> quote) r
            in if path \<noteq> [] \<and> dropWhile (\<lambda>x. x \<noteq> quote) r \<noteq> [] then Some [path] else None)
      else None)"
proof -
  have close: "rmatch [GClose, One (Lit quote)] (dropWhile (\<lambda>x. x \<noteq> quote) r) [] (Some g) =
      (if dropWhile (\<lambda>x. x \<noteq> quote) r \<noteq> [] then Some [g] else None)" for r g
  proof (cases "dropWhile (\<lambda>x. x \<noteq> quote) r")
    case Nil
    show ?thesis unfolding Nil by simp
  next
    case (Cons x xs)
    then have "x = quote" using hd_dropWhile [of "\<lambda>x. x \<noteq> quote" r] by auto
    then show ?thesis unfolding Cons by simp
  qed
  have "rplus (NotCh quote) [GClose, One (Lit quote)] r [] (Some [])
          (length (takeWhile (cmatch (NotCh quote)) r)) =
        (if takeWhile (\<lambda>x. x \<noteq> quote) r \<noteq> [] \<and> dropWhile (\<lambda>x. x \<noteq> quote) r \<noteq> []
         then Some [takeWhile (\<lambda>x. x \<noteq> quote) r] else None)" for r
  proof -
    have "rplus (NotCh quote) [GClose, One (Lit quote)] r [] (Some [])
          (length (takeWhile (cmatch (NotCh quote)) r)) =
     (if takeWhile (cmatch (NotCh quote)) r = [] then None
      else rmatch [GClose, One (Lit quote)] (dropWhile (cmatch (NotCh quote)) r) []
             (map_option (\<lambda>g. g @ takeWhile (cmatch (NotCh quote)) r) (Some [])))"
      by (rule rplus_then_close_lit) simp
    then show ?thesis
      by (simp only: cmatch_NotCh option.map append_Nil close) simp
  qed
  note plus = this
  have lit: "rmatch file_re s [] None =
     (if startswith (''File '' @ [quote]) s
      then rmatch [GOpen, Plus (NotCh quote), GClose, One (Lit quote)]
             (drop (length (''File '' @ [quote])) s) []
             (map_option (\<lambda>g. g @ (''File '' @ [quote])) None)
      else None)"
    unfolding file_re_def by (rule rmatch_lits)
  show ?thesis
    by (simp only: lit) (simp add: plus Let_def)
qed


lemma digit_not_dot: "cmatch Digit x \<Longrightarrow> x \<noteq> CHR ''.''"
  by (auto simp: is_digit_def)

lemma digit_not_percent: "cmatch Digit x \<Longrightarrow> x \<noteq> CHR ''%''"
  by (auto simp: is_digit_def)

lemma rmatch_total_group:
  "rmatch [GOpen, Plus Digit, GClose] r gs None =
     (if takeWhile is_digit r = [] then None else Some (gs @ [takeWhile is_digit r]))"
  using rplus_then_close [of Digit r gs "[]"] by (simp add: cmatch_Digit)

lemma rmatch_percent_tail:
  "rmatch (Plus Digit # GClose # map (\<lambda>c. One (Lit c)) ''% of '' @ [GOpen, Plus Digit, GClose])
          r [] (Some g) =
     (let d2 = takeWhile is_digit r; r4 = dropWhile is_digit r
      in if d2 \<noteq> [] \<and> startswith ''% of '' r4
         then (let d3 = takeWhile is_digit (drop (length ''% of '') r4)
               in if d3 = [] then None else Some [g @ d2, d3])
         else None)"
proof -
  let ?D = "[GOpen, Plus Digit, GClose]"
  let ?tail = "map (\<lambda>c. One (Lit c)) '' of '' @ ?D"
  have unfold: "map (\<lambda>c. One (Lit c)) ''% of '' @ ?D = One (Lit (CHR ''%'')) # ?tail"
    by simp
  have fold: "GClose # One (Lit (CHR ''%'')) # ?tail
              = GClose # map (\<lambda>c. One (Lit c)) ''% of '' @ ?D"
    by simp
  have after: "rmatch (GClose # map (\<lambda>c. One (Lit c)) ''% of '' @ ?D) r4 [] (Some h) =
      (if startswith ''% of '' r4
       then (let d3 = takeWhile is_digit (drop (length ''% of '') r4)
             in if d3 = [] then None else Some [h, d3])
       else None)" for r4 h
  proof -
    have "rmatch (GClose # map (\<lambda>c. One (Lit c)) ''% of '' @ ?D) r4 [] (Some h)
          = rmatch (map (\<lambda>c. One (Lit c)) ''% of '' @ ?D) r4 [h] None"
      by (simp del: list.map)
    also have "\<dots> = (if startswith ''% of '' r4
        then rmatch ?D (drop (length ''% of '') r4) [h] (map_option (\<lambda>g. g @ ''% of '') None)
        else None)"
      by (rule rmatch_lits)
    finally show ?thesis by (simp only: rmatch_total_group option.map Let_def) simp
  qed
  have "rmatch (Plus Digit # GClose # map (\<lambda>c. One (Lit c)) ''% of '' @ ?D) r [] (Some g)
        = rplus Digit (GClose # One (Lit (CHR ''%'')) # ?tail) r [] (Some g)
            (length (takeWhile (cmatch Digit) r))"
    by (simp only: unfold rmatch.simps)
  also have "\<dots> = (if takeWhile (cmatch Digit) r = [] then None
      else rmatch (GClose # One (Lit (CHR ''%'')) # ?tail) (dropWhile (cmatch Digit) r) []
             (map_option (\<lambda>h. h @ takeWhile (cmatch Digit) r) (Some g)))"
    by (rule rplus_then_close_lit) (rule digit_not_percent)
  finally show ?thesis
    by (simp only: fold after cmatch_Digit option.map Let_def) simp
qed

lemma rmatch_coverage_re:
  "rmatch coverage_re s [] None =
     (if startswith ''Lines executed:'' s
      then (let r1 = drop (length ''Lines executed:'') s;
                d1 = takeWhile is_digit r1
            in if d1 = [] then None
               else (case dropWhile is_digit r1 of
                       [] \<Rightarrow> None
                     | x # r3 \<Rightarrow>
                         if x = CHR ''.'' then
                           (let d2 = takeWhile is_digit r3; r4 = dropWhile is_digit r3
                            in if d2 \<noteq> [] \<and> startswith ''% of '' r4
                               then (let d3 = takeWhile is_digit (drop (length ''% of '') r4)
                                     in if d3 = [] then None else Some [d1 @ ''.'' @ d2, d3])
                               else None)
                         else None))
      else None)"
proof -
  let ?D = "[GOpen, Plus Digit, GClose]"
  let ?ps = "Plus Digit # GClose # map (\<lambda>c. One (Lit c)) ''% of '' @ ?D"
  have shape: "coverage_re =
     map (\<lambda>c. One (Lit c)) ''Lines executed:'' @ (GOpen # Plus Digit # One (Lit (CHR ''.'')) # ?ps)"
    by (simp add: coverage_re_def)
  have dot: "rmatch (One (Lit (CHR ''.'')) # ?ps) r2 [] (Some d1) =
      (case r2 of [] \<Rightarrow> None
       | x # r3 \<Rightarrow> if x = CHR ''.'' then rmatch ?ps r3 [] (Some (d1 @ ''.'')) else None)"
    for r2 d1
    by (cases r2) (simp_all del: list.map)
  have first: "rmatch (GOpen # Plus Digit # One (Lit (CHR ''.'')) # ?ps) r1 [] None =
      (if takeWhile is_digit r1 = [] then None
       else rmatch (One (Lit (CHR ''.'')) # ?ps) (dropWhile is_digit r1) []
              (Some (takeWhile is_digit r1)))" for r1
  proof -
    have "rmatch (GOpen # Plus Digit # One (Lit (CHR ''.'')) # ?ps) r1 [] None
          = rplus Digit (One (Lit (CHR ''.'')) # ?ps) r1 [] (Some [])
              (length (takeWhile (cmatch Digit) r1))"
      by (simp only: rmatch.simps)
    also have "\<dots> = (if takeWhile (cmatch Digit) r1 = [] then None
        else rmatch (One (Lit (CHR ''.'')) # ?ps) (dropWhile (cmatch Digit) r1) []
               (map_option (\<lambda>h. h @ takeWhile (cmatch Digit) r1) (Some [])))"
      by (rule rplus_then_lit) (rule digit_not_dot)
    finally show ?thesis by (simp only: cmatch_Digit option.map append_Nil)
  qed
  have lit: "rmatch coverage_re s [] None =
     (if startswith ''Lines executed:'' s
      then rmatch (GOpen # Plus Digit # One (Lit (CHR ''.'')) # ?ps)
             (drop (length ''Lines executed:'') s) []
             (map_option (\<lambda>g. g @ ''Lines executed:'') None)
      else None)"
    unfolding shape by (rule rmatch_lits)
  show ?thesis
    by (simp only: lit option.map first dot rmatch_percent_tail Let_def append_assoc)
qed


lemma takeWhile_run:
  "list_all P d \<Longrightarrow> takeWhile P rest = [] \<Longrightarrow> takeWhile P (d @ rest) = d"
  by (induction d) simp_all

lemma dropWhile_run:
  "list_all P d \<Longrightarrow> takeWhile P rest = [] \<Longrightarrow> dropWhile P (d @ rest) = rest"
proof (induction d)
  case Nil
  then show ?case using takeWhile_dropWhile_id [of P rest] by simp
next
  case (Cons a d)
  then show ?case by simp
qed

lemma takeWhile_dropWhile_nil: "takeWhile P (dropWhile P xs) = []"
  by (induction xs) simp_all

lemma list_all_takeWhile: "list_all P (takeWhile P xs)"
  by (induction xs) simp_all

lemma file_line_at_iff:
  "rmatch file_re s [] None = Some gs \<longleftrightarrow> (\<exists>path. gs = [path] \<and> file_line_at s path)"
proof
  let ?pre = "''File '' @ [quote]"
  let ?P = "\<lambda>x. x \<noteq> quote"
  assume m: "rmatch file_re s [] None = Some gs"
  let ?r = "drop (length ?pre) s"
  from m have pre: "startswith ?pre s" and ne: "takeWhile ?P ?r \<noteq> []"
    and rest: "dropWhile ?P ?r \<noteq> []" and gs: "gs = [takeWhile ?P ?r]"
    by (auto simp: rmatch_file_re Let_def split: if_splits)
  from rest obtain x xs where d: "dropWhile ?P ?r = x # xs" by (cases "dropWhile ?P ?r") auto
  then have "x = quote" using hd_dropWhile [of ?P ?r] by auto
  with d have "?r = takeWhile ?P ?r @ [quote] @ xs"
    using takeWhile_dropWhile_id [of ?P ?r] by simp
  then have "s = ?pre @ takeWhile ?P ?r @ [quote] @ xs"
    using startswith_drop [OF pre] by simp
  then have "s = (?pre @ takeWhile ?P ?r @ [quote]) @ xs" by simp
  then have "startswith (?pre @ takeWhile ?P ?r @ [quote]) s"
    unfolding startswith_iff by (rule exI)
  moreover have "quote \<notin> set (takeWhile ?P ?r)" by (auto dest: set_takeWhileD)
  ultimately have "file_line_at s (takeWhile ?P ?r)"
    using ne by (simp add: file_line_at_def)
  with gs show "\<exists>path. gs = [path] \<and> file_line_at s path" by blast
next
  let ?pre = "''File '' @ [quote]"
  let ?P = "\<lambda>x. x \<noteq> quote"
  assume "\<exists>path. gs = [path] \<and> file_line_at s path"
  then obtain path where gs: "gs = [path]" and f: "file_line_at s path" by blast
  then obtain post where s: "s = ?pre @ path @ quote # post"
    and ne: "path \<noteq> []" and nq: "quote \<notin> set path"
    by (auto simp: file_line_at_def startswith_iff)
  have all: "list_all ?P path" using nq by (auto simp: list_all_iff)
  have pre: "startswith ?pre s" using s unfolding startswith_iff by (rule exI)
  have r: "drop (length ?pre) s = path @ quote # post" using s by simp
  have "takeWhile ?P (path @ quote # post) = path"
    using all by (intro takeWhile_run) simp_all
  moreover have "dropWhile ?P (path @ quote # post) = quote # post"
    using all by (intro dropWhile_run) simp_all
  ultimately show "rmatch file_re s [] None = Some gs"
    using pre ne gs by (simp only: rmatch_file_re r Let_def) simp
qed


lemma not_digit_dot: "\<not> is_digit (CHR ''.'')"
  by (simp add: is_digit_def)

lemma not_digit_percent: "\<not> is_digit (CHR ''%'')"
  by (simp add: is_digit_def)

lemma digits_run: "takeWhile is_digit r \<noteq> [] \<Longrightarrow> digits (takeWhile is_digit r)"
  by (simp add: digits_def list_all_takeWhile)

lemma percent_text_iff:
  "percent_text p \<longleftrightarrow> (\<exists>ip fp. p = ip @ ''.'' @ fp \<and> digits ip \<and> digits fp)"
proof
  assume pt: "percent_text p"
  let ?ip = "takeWhile is_digit p"
  from pt obtain fp where d: "drop (length ?ip) p = CHR ''.'' # fp"
    and ip: "digits ?ip" and fp: "digits fp"
    by (auto simp: percent_text_def Let_def split: list.splits)
  have "p = take (length ?ip) p @ drop (length ?ip) p" by simp
  then have "p = ?ip @ ''.'' @ fp" by (simp only: take_run d) simp
  with ip fp show "\<exists>ip fp. p = ip @ ''.'' @ fp \<and> digits ip \<and> digits fp" by blast
next
  assume "\<exists>ip fp. p = ip @ ''.'' @ fp \<and> digits ip \<and> digits fp"
  then obtain ip fp where p: "p = ip @ CHR ''.'' # fp" and ip: "digits ip" and fp: "digits fp"
    by auto
  have "takeWhile is_digit (ip @ CHR ''.'' # fp) = ip"
    using ip by (intro takeWhile_run) (simp_all add: digits_def not_digit_dot)
  then show "percent_text p"
    using ip fp by (simp add: percent_text_def p)
qed

lemma coverage_line_at_iff:
  "rmatch coverage_re s [] None = Some gs \<longleftrightarrow>
     (\<exists>pct tot. gs = [pct, tot] \<and> coverage_line_at s pct tot)"
proof
  let ?L1 = "''Lines executed:''" and ?L2 = "''% of ''"
  assume m: "rmatch coverage_re s [] None = Some gs"
  define r1 where "r1 = drop (length ?L1) s"
  let ?d1 = "takeWhile is_digit r1"
  have closed: "rmatch coverage_re s [] None =
     (if startswith ?L1 s
      then (if ?d1 = [] then None
            else (case dropWhile is_digit r1 of
                    [] \<Rightarrow> None
                  | x # r3 \<Rightarrow>
                      if x = CHR ''.'' then
                        (if takeWhile is_digit r3 \<noteq> [] \<and> startswith ?L2 (dropWhile is_digit r3)
                         then (if takeWhile is_digit (drop (length ?L2) (dropWhile is_digit r3)) = []
                               then None
                               else Some [?d1 @ ''.'' @ takeWhile is_digit r3,
                                          takeWhile is_digit
                                            (drop (length ?L2) (dropWhile is_digit r3))])
                         else None)
                      else None))
      else None)"
    by (simp only: rmatch_coverage_re Let_def r1_def)
  from m obtain r3 where pre: "startswith ?L1 s" and d1: "?d1 \<noteq> []"
    and dot: "dropWhile is_digit r1 = CHR ''.'' # r3"
    and d2: "takeWhile is_digit r3 \<noteq> []" and l2: "startswith ?L2 (dropWhile is_digit r3)"
    and d3: "takeWhile is_digit (drop (length ?L2) (dropWhile is_digit r3)) \<noteq> []"
    and gs: "gs = [?d1 @ ''.'' @ takeWhile is_digit r3,
                   takeWhile is_digit (drop (length ?L2) (dropWhile is_digit r3))]"
    unfolding closed by (auto split: if_splits list.splits)
  let ?d2 = "takeWhile is_digit r3" and ?r4 = "dropWhile is_digit r3"
  define r5 where "r5 = drop (length ?L2) ?r4"
  let ?d3 = "takeWhile is_digit r5"
  have s1: "s = ?L1 @ r1" unfolding r1_def by (rule startswith_drop [OF pre])
  have r1: "r1 = ?d1 @ CHR ''.'' # r3"
    using takeWhile_dropWhile_id [of is_digit r1] by (simp only: dot)
  have r3: "r3 = ?d2 @ ?r4" by simp
  have r4: "?r4 = ?L2 @ r5" unfolding r5_def by (rule startswith_drop [OF l2])
  have r5: "r5 = ?d3 @ dropWhile is_digit r5" by simp
  let ?m = "?L1 @ (?d1 @ ''.'' @ ?d2) @ ?L2 @ ?d3"
  have "s = ?L1 @ ?d1 @ CHR ''.'' # ?d2 @ ?L2 @ ?d3 @ dropWhile is_digit r5"
    using s1 r1 r3 r4 r5 by metis
  then have s: "s = ?m @ dropWhile is_digit r5" by simp
  then have "startswith ?m s" unfolding startswith_iff by (rule exI)
  moreover have "drop (length ?m) s = dropWhile is_digit r5"
    using s by (metis append_eq_conv_conj)
  moreover have "percent_text (?d1 @ ''.'' @ ?d2)"
    unfolding percent_text_iff using d1 d2 digits_run by blast
  moreover have "digits ?d3" using d3 unfolding r5_def by (rule digits_run)
  ultimately have "coverage_line_at s (?d1 @ ''.'' @ ?d2) ?d3"
    by (simp only: coverage_line_at_def Let_def takeWhile_dropWhile_nil)
  with gs show "\<exists>pct tot. gs = [pct, tot] \<and> coverage_line_at s pct tot"
    unfolding r5_def by blast
next
  let ?L1 = "''Lines executed:''" and ?L2 = "''% of ''"
  assume "\<exists>pct tot. gs = [pct, tot] \<and> coverage_line_at s pct tot"
  then obtain pct tot where gs: "gs = [pct, tot]" and c: "coverage_line_at s pct tot" by blast
  from c obtain ip fp where pct: "pct = ip @ ''.'' @ fp" and ip: "digits ip" and fp: "digits fp"
    unfolding coverage_line_at_def percent_text_iff by blast
  let ?m = "?L1 @ pct @ ?L2 @ tot"
  from c have tot: "digits tot" and sw: "startswith ?m s"
    and stop: "takeWhile is_digit (drop (length ?m) s) = []"
    by (simp_all add: coverage_line_at_def Let_def)
  define rest where "rest = drop (length ?m) s"
  have "s = ?m @ rest" unfolding rest_def by (rule startswith_drop [OF sw])
  then have s: "s = ?L1 @ (ip @ CHR ''.'' # fp @ ?L2 @ tot @ rest)" by (simp add: pct)
  have pre: "startswith ?L1 s" unfolding startswith_iff using s by (rule exI)
  have r1: "drop (length ?L1) s = ip @ CHR ''.'' # fp @ ?L2 @ tot @ rest"
    using s by (metis append_eq_conv_conj)
  have t1: "takeWhile is_digit (ip @ CHR ''.'' # fp @ ?L2 @ tot @ rest) = ip"
    using ip by (intro takeWhile_run) (simp_all add: digits_def not_digit_dot)
  have dr1: "dropWhile is_digit (ip @ CHR ''.'' # fp @ ?L2 @ tot @ rest)
             = CHR ''.'' # fp @ ?L2 @ tot @ rest"
    using ip by (intro dropWhile_run) (simp_all add: digits_def not_digit_dot)
  have t2: "takeWhile is_digit (fp @ ?L2 @ tot @ rest) = fp"
    using fp by (intro takeWhile_run) (simp_all add: digits_def not_digit_percent)
  have dr2: "dropWhile is_digit (fp @ ?L2 @ tot @ rest) = ?L2 @ tot @ rest"
    using fp by (intro dropWhile_run) (simp_all add: digits_def not_digit_percent)
  have l2: "startswith ?L2 (?L2 @ tot @ rest)" unfolding startswith_iff by (rule exI) (rule refl)
  have r5: "drop (length ?L2) (?L2 @ tot @ rest) = tot @ rest"
    by (metis append_eq_conv_conj)
  have t3: "takeWhile is_digit (tot @ rest) = tot"
    using tot stop by (intro takeWhile_run) (simp_all add: digits_def rest_def)
  have ne: "ip \<noteq> []" "fp \<noteq> []" "tot \<noteq> []" using ip fp tot by (simp_all add: digits_def)
  show "rmatch coverage_re s [] None = Some gs"
    using pre ne
    by (simp only: rmatch_coverage_re r1 t1 dr1 Let_def list.case t2 dr2 l2 r5 t3 gs pct) simp
qed

lemma file_no_match_iff:
  "rmatch file_re s [] None = None \<longleftrightarrow> (\<forall>p. \<not> file_line_at s p)"
proof -
  have "(\<forall>p. \<not> file_line_at s p) \<longleftrightarrow> (\<forall>gs. rmatch file_re s [] None \<noteq> Some gs)"
    by (simp only: file_line_at_iff) blast
  then show ?thesis by auto
qed

lemma coverage_no_match_iff:
  "rmatch coverage_re s [] None = None \<longleftrightarrow> (\<forall>p t. \<not> coverage_line_at s p t)"
proof -
  have "(\<forall>p t. \<not> coverage_line_at s p t) \<longleftrightarrow> (\<forall>gs. rmatch coverage_re s [] None \<noteq> Some gs)"
    by (simp only: coverage_line_at_iff) blast
  then show ?thesis by auto
qed

lemma re_search_file_None: "re_search file_re s = None \<longleftrightarrow> no_file_line s"
  by (simp only: re_search_None_iff file_no_match_iff no_file_line_def)

lemma re_search_coverage_None: "re_search coverage_re s = None \<longleftrightarrow> no_coverage_line s"
  by (simp only: re_search_None_iff coverage_no_match_iff no_coverage_line_def)

lemma re_search_file_Some:
  "re_search file_re s = Some gs \<longleftrightarrow> (\<exists>path. gs = [path] \<and> first_file_line s path)"
  by (simp only: re_search_Some_iff file_no_match_iff file_line_at_iff first_file_line_def) blast

lemma re_search_coverage_Some:
  "re_search coverage_re s = Some gs \<longleftrightarrow>
     (\<exists>pct tot. gs = [pct, tot] \<and> first_coverage_line s pct tot)"
  by (simp only: re_search_Some_iff coverage_no_match_iff coverage_line_at_iff
        first_coverage_line_def) blast

lemma first_coverage_line_shape:
  "first_coverage_line s pct tot \<Longrightarrow> percent_text pct \<and> digits tot"
  by (auto simp: first_coverage_line_def coverage_line_at_def)

lemma first_file_line_shape:
  "first_file_line s path \<Longrightarrow> path \<noteq> [] \<and> quote \<notin> set path"
  by (auto simp: first_file_line_def file_line_at_def)

subsection \<open>Extraction\<close>

lemma digit_val_range: "is_digit c \<Longrightarrow> 0 \<le> digit_val c \<and> digit_val c \<le> 9"
  by (auto simp: is_digit_def digit_val_def)

lemma foldl_digits_nonneg:
  "0 \<le> a \<Longrightarrow> list_all is_digit ds \<Longrightarrow> 0 \<le> foldl (\<lambda>a c. 10 * a + digit_val c) a ds"
proof (induction ds arbitrary: a)
  case Nil
  then show ?case by simp
next
  case (Cons c ds)
  then have "0 \<le> 10 * a + digit_val c" using digit_val_range [of c] by simp
  with Cons show ?case by simp
qed

lemma digits_to_int_nonneg: "list_all is_digit ds \<Longrightarrow> 0 \<le> digits_to_int ds"
  unfolding digits_to_int_def by (rule foldl_digits_nonneg) simp

lemma decimal_value_nonneg:
  assumes "percent_text pct"
  shows "0 \<le> decimal_value pct"
proof -
  obtain ip fp where pct: "pct = ip @ CHR ''.'' # fp" and ip: "digits ip" and fp: "digits fp"
    using assms unfolding percent_text_iff by auto
  have nodot: "list_all (\<lambda>c. c \<noteq> CHR ''.'') ip"
    using ip not_digit_dot by (auto simp: digits_def list_all_iff)
  have "takeWhile (\<lambda>c. c \<noteq> CHR ''.'') (ip @ CHR ''.'' # fp) = ip"
    using nodot by (intro takeWhile_run) simp_all
  then have "decimal_value pct = of_int (digits_to_int (ip @ fp)) / 10 ^ length fp"
    by (simp add: decimal_value_def pct)
  moreover have "0 \<le> digits_to_int (ip @ fp)"
    using ip fp by (intro digits_to_int_nonneg) (simp add: digits_def)
  ultimately show ?thesis by simp
qed

lemma to_double_Fin_nonneg: "0 \<le> x \<Longrightarrow> to_double x = Fin r \<Longrightarrow> 0 \<le> r"
  using to_double_nonneg [of x] by auto

lemma to_double_not_NaN: "0 \<le> x \<Longrightarrow> to_double x \<noteq> NaN"
  using to_double_nonneg [of x] by auto

lemma int_to_float_100: "int_to_float 100 = Inr (Fin 100)"
  using to_double_of_int [of 100] by (simp add: int_to_float_def)

lemma float_div_int_100: "float_div_int x 100 = float_div x (Fin 100)"
  by (simp add: float_div_int_def int_to_float_100)

lemma int_mul_float_Fin:
  "to_double (of_int n) = Fin t \<Longrightarrow> int_mul_float n x = Inr (float_mul (Fin t) x)"
  by (simp add: int_mul_float_def int_to_float_def)

lemma int_mul_float_PInf:
  "to_double (of_int n) = PInf \<Longrightarrow> int_mul_float n x = Inl OverflowError"
  by (simp add: int_mul_float_def int_to_float_def)

lemma to_double_div_100:
  assumes "0 \<le> m" "m < pow2 1024"
  shows "\<exists>c. to_double (m / 100) = Fin c \<and> 0 \<le> c \<and> c \<le> pow2 1018"
proof -
  have "pow2 1024 = pow2 6 * pow2 1018" by (simp flip: pow2_add)
  then have "m < 64 * pow2 1018" using assms(2) by (simp add: pow2_def)
  then have "m / 100 \<le> pow2 1018" using pow2_pos [of 1018] by simp
  then show ?thesis using assms(1) by (intro to_double_le_pow2) simp_all
qed

lemma to_double_Fin_less: "to_double x = Fin r \<Longrightarrow> r < pow2 1024"
  using pow2_pos [of 1024] by (auto simp: to_double_def Let_def split: if_splits)

lemma parse_gcov_output_matched:
  assumes run: "gcov f = Completed out err"
    and fm: "re_search file_re (out @ err) = Some [path]"
    and cm: "re_search coverage_re (out @ err) = Some [pct, tot]"
    and pct: "percent_text pct" and tot: "digits tot"
  shows "parse_gcov_output maxd gcov f =
     (if maxd \<noteq> 0 \<and> maxd < length tot then None
      else case to_double (of_int (digits_to_int tot)) of
             Fin t \<Rightarrow>
               (case to_double (decimal_value pct) of
                  Fin p \<Rightarrow>
                    (case to_double (t * p) of
                       Fin m \<Rightarrow>
                         (case to_double (m / 100) of
                            Fin c \<Rightarrow> Some \<lparr>file_name = path, percentage = Fin p,
                                            covered = \<lfloor>c\<rfloor>, total = digits_to_int tot\<rparr>
                          | _ \<Rightarrow> None)
                     | _ \<Rightarrow> None)
                | _ \<Rightarrow> None)
           | _ \<Rightarrow> None)"
proof (cases "maxd \<noteq> 0 \<and> maxd < length tot")
  case True
  then show ?thesis
    by (simp add: parse_gcov_output_def parse_body_def run fm cm match_group_def py_int_def)
next
  case False
  let ?T = "digits_to_int tot"
  have T: "0 \<le> ?T" using tot by (simp add: digits_def digits_to_int_nonneg)
  have P: "0 \<le> decimal_value pct" using pct by (rule decimal_value_nonneg)
  have start: "parse_gcov_output maxd gcov f =
     (case int_mul_float ?T (py_float pct) of Inl e \<Rightarrow> None
      | Inr product \<Rightarrow>
          (case float_div_int product 100 of Inl e \<Rightarrow> None
           | Inr ratio \<Rightarrow>
               (case float_to_int ratio of Inl e \<Rightarrow> None
                | Inr covered_lines \<Rightarrow>
                    Some \<lparr>file_name = path, percentage = py_float pct,
                          covered = covered_lines, total = ?T\<rparr>)))"
    using False
    by (simp add: parse_gcov_output_def parse_body_def run fm cm match_group_def py_int_def
          split: sum.splits)
  show ?thesis
  proof (cases "to_double (of_int ?T)")
    case PInf
    then show ?thesis using False by (simp add: start int_mul_float_PInf)
  next
    case NaN
    then show ?thesis using to_double_not_NaN [of "of_int ?T"] T by simp
  next
    case t: (Fin t)
    have t0: "0 \<le> t" using to_double_Fin_nonneg [OF _ t] T by simp
    show ?thesis
    proof (cases "to_double (decimal_value pct)")
      case PInf
      then show ?thesis using False t
        by (simp add: start int_mul_float_Fin py_float_def float_div_int_100)
    next
      case NaN
      then show ?thesis using to_double_not_NaN [OF P] by simp
    next
      case p: (Fin p)
      have p0: "0 \<le> p" using to_double_Fin_nonneg [OF P p] .
      show ?thesis
      proof (cases "to_double (t * p)")
        case PInf
        then show ?thesis using False t p
          by (simp add: start int_mul_float_Fin py_float_def float_div_int_100)
      next
        case NaN
        then show ?thesis using to_double_not_NaN [of "t * p"] t0 p0 by simp
      next
        case m: (Fin m)
        have m0: "0 \<le> m" using to_double_Fin_nonneg [OF _ m] t0 p0 by simp
        have "m < pow2 1024" using m by (rule to_double_Fin_less)
        then obtain c where c: "to_double (m / 100) = Fin c" and c0: "0 \<le> c"
          using to_double_div_100 [OF m0] by blast
        show ?thesis using False t p m c c0
          by (simp add: start int_mul_float_Fin py_float_def float_div_int_100)
      qed
    qed
  qed
qed

lemma parse_gcov_output_lines:
  assumes run: "gcov f = Completed out err"
    and fl: "first_file_line (out @ err) path"
    and cl: "first_coverage_line (out @ err) pct tot"
  shows "parse_gcov_output maxd gcov f =
     (if maxd \<noteq> 0 \<and> maxd < length tot then None
      else case to_double (of_int (digits_to_int tot)) of
             Fin t \<Rightarrow>
               (case to_double (decimal_value pct) of
                  Fin p \<Rightarrow>
                    (case to_double (t * p) of
                       Fin m \<Rightarrow>
                         (case to_double (m / 100) of
                            Fin c \<Rightarrow> Some \<lparr>file_name = path, percentage = Fin p,
                                            covered = \<lfloor>c\<rfloor>, total = digits_to_int tot\<rparr>
                          | _ \<Rightarrow> None)
                     | _ \<Rightarrow> None)
                | _ \<Rightarrow> None)
           | _ \<Rightarrow> None)"
proof -
  have "re_search file_re (out @ err) = Some [path]"
    using fl by (simp add: re_search_file_Some)
  moreover have "re_search coverage_re (out @ err) = Some [pct, tot]"
    using cl by (simp add: re_search_coverage_Some)
  ultimately show ?thesis
    using run first_coverage_line_shape [OF cl] by (intro parse_gcov_output_matched) simp_all
qed

lemma parse_gcov_output_raised:
  "gcov f = Raised ex \<Longrightarrow> parse_gcov_output maxd gcov f = None"
  by (simp add: parse_gcov_output_def parse_body_def)

lemma parse_gcov_output_no_file:
  "gcov f = Completed out err \<Longrightarrow> no_file_line (out @ err) \<Longrightarrow>
     parse_gcov_output maxd gcov f = None"
  by (simp add: parse_gcov_output_def parse_body_def Let_def flip: re_search_file_None)

lemma parse_gcov_output_no_coverage:
  "gcov f = Completed out err \<Longrightarrow> no_coverage_line (out @ err) \<Longrightarrow>
     parse_gcov_output maxd gcov f = None"
  by (simp add: parse_gcov_output_def parse_body_def Let_def flip: re_search_coverage_None
        split: option.splits)

lemma parse_gcov_output_caught:
  "parse_body maxd (gcov f) = Inl ex \<Longrightarrow> parse_gcov_output maxd gcov f = None"
  by (simp add: parse_gcov_output_def)

lemma parse_gcov_output_Some:
  assumes "parse_gcov_output maxd gcov f = Some r"
  obtains out err path pct tot t p m c where
    "gcov f = Completed out err"
    "first_file_line (out @ err) path" "first_coverage_line (out @ err) pct tot"
    "maxd = 0 \<or> length tot \<le> maxd"
    "to_double (of_int (digits_to_int tot)) = Fin t"
    "to_double (decimal_value pct) = Fin p"
    "to_double (t * p) = Fin m" "to_double (m / 100) = Fin c"
    "r = \<lparr>file_name = path, percentage = Fin p, covered = \<lfloor>c\<rfloor>, total = digits_to_int tot\<rparr>"
proof -
  obtain out err where run: "gcov f = Completed out err"
    using assms parse_gcov_output_raised [of gcov f _ maxd] by (cases "gcov f") auto
  have "\<not> no_file_line (out @ err)"
    using assms run parse_gcov_output_no_file [of gcov f out err maxd] by auto
  then obtain fm where "re_search file_re (out @ err) = Some fm"
    unfolding re_search_file_None [symmetric] by auto
  then obtain path where fl: "first_file_line (out @ err) path"
    unfolding re_search_file_Some by blast
  have "\<not> no_coverage_line (out @ err)"
    using assms run parse_gcov_output_no_coverage [of gcov f out err maxd] by auto
  then obtain cm where "re_search coverage_re (out @ err) = Some cm"
    unfolding re_search_coverage_None [symmetric] by auto
  then obtain pct tot where cl: "first_coverage_line (out @ err) pct tot"
    unfolding re_search_coverage_Some by blast
  note eq = parse_gcov_output_lines [of gcov f out err path pct tot maxd, OF run fl cl]
  from assms show ?thesis
    unfolding eq using run fl cl
    by (auto split: if_splits pyfloat.splits intro: that)
qed

subsection \<open>Worked examples\<close>

lemma lines_18_40_of_375:
  "first_file_line (tool_output ''a.c'' ''18.40'' ''375'' @ []) ''a.c''"
  "first_coverage_line (tool_output ''a.c'' ''18.40'' ''375'' @ []) ''18.40'' ''375''"
proof -
  have "re_search file_re (tool_output ''a.c'' ''18.40'' ''375'' @ []) = Some [''a.c'']"
    unfolding tool_output_def by code_simp
  then show "first_file_line (tool_output ''a.c'' ''18.40'' ''375'' @ []) ''a.c''"
    by (simp add: re_search_file_Some)
  have "re_search coverage_re (tool_output ''a.c'' ''18.40'' ''375'' @ []) = Some [''18.40'', ''375'']"
    unfolding tool_output_def by code_simp
  then show "first_coverage_line (tool_output ''a.c'' ''18.40'' ''375'' @ []) ''18.40'' ''375''"
    by (simp add: re_search_coverage_Some)
qed

lemma rounding_18_40_of_375:
  "to_double (decimal_value ''18.40'') = Fin (2589569785738035 / 140737488355328)"
  "to_double (rat_of_int 375) = Fin 375"
  "to_double (375 * (2589569785738035 / 140737488355328)) = Fin (7586630231654399 / 1099511627776)"
  "to_double ((7586630231654399 / 1099511627776) / 100) = Fin (4855443348258815 / 70368744177664)"
  "\<lfloor>4855443348258815 / 70368744177664 :: rat\<rfloor> = 68"
  "digits_to_int ''375'' = 375"
proof -
  have dv: "decimal_value ''18.40'' = 92 / 5"
    by (simp add: decimal_value_def digits_to_int_def digit_val_def)
  have "to_double (92 / 5) = Fin (2589569785738035 / 140737488355328)"
    by (rule to_double_near [where e = 4 and n = 5179139571476070]) (simp_all add: pow2_def)
  then show "to_double (decimal_value ''18.40'') = Fin (2589569785738035 / 140737488355328)"
    by (simp only: dv)
  show "to_double (rat_of_int 375) = Fin 375"
    by (rule to_double_near [where e = 8 and n = 6597069766656000]) (simp_all add: pow2_def)
  show "to_double (375 * (2589569785738035 / 140737488355328)) = Fin (7586630231654399 / 1099511627776)"
    by (rule to_double_near [where e = 12 and n = 7586630231654399]) (simp_all add: pow2_def)
  show "to_double ((7586630231654399 / 1099511627776) / 100) = Fin (4855443348258815 / 70368744177664)"
    by (rule to_double_near [where e = 6 and n = 4855443348258815]) (simp_all add: pow2_def)
  show "\<lfloor>4855443348258815 / 70368744177664 :: rat\<rfloor> = 68"
    by (rule floor_unique) simp_all
  show "digits_to_int ''375'' = 375"
    by (simp add: digits_to_int_def digit_val_def)
qed

lemma record_18_40_of_375:
  "parse_gcov_output 4300 (always (Completed (tool_output ''a.c'' ''18.40'' ''375'') [])) ''build/a.gcda''
   = Some \<lparr>file_name = ''a.c'', percentage = Fin (2589569785738035 / 140737488355328),
            covered = 68, total = 375\<rparr>"
proof -
  have run: "(always (Completed (tool_output ''a.c'' ''18.40'' ''375'') [])) ''build/a.gcda''
             = Completed (tool_output ''a.c'' ''18.40'' ''375'') []"
    by (simp add: always_def)
  have lim: "\<not> ((4300::nat) \<noteq> 0 \<and> 4300 < length ''375'')"
    by simp
  show ?thesis
    by (simp only: parse_gcov_output_lines [where maxd = 4300 and f = "''build/a.gcda''"
            and gcov = "always (Completed (tool_output ''a.c'' ''18.40'' ''375'') [])",
            OF run lines_18_40_of_375]
          lim if_False rounding_18_40_of_375 pyfloat.case)
qed

lemma lines_0_70_of_1000:
  "first_file_line (tool_output ''a.c'' ''0.70'' ''1000'' @ []) ''a.c''"
  "first_coverage_line (tool_output ''a.c'' ''0.70'' ''1000'' @ []) ''0.70'' ''1000''"
proof -
  have "re_search file_re (tool_output ''a.c'' ''0.70'' ''1000'' @ []) = Some [''a.c'']"
    unfolding tool_output_def by code_simp
  then show "first_file_line (tool_output ''a.c'' ''0.70'' ''1000'' @ []) ''a.c''"
    by (simp add: re_search_file_Some)
  have "re_search coverage_re (tool_output ''a.c'' ''0.70'' ''1000'' @ []) = Some [''0.70'', ''1000'']"
    unfolding tool_output_def by code_simp
  then show "first_coverage_line (tool_output ''a.c'' ''0.70'' ''1000'' @ []) ''0.70'' ''1000''"
    by (simp add: re_search_coverage_Some)
qed

lemma rounding_0_70_of_1000:
  "to_double (decimal_value ''0.70'') = Fin (3152519739159347 / 4503599627370496)"
  "to_double (rat_of_int 1000) = Fin 1000"
  "to_double (1000 * (3152519739159347 / 4503599627370496)) = Fin 700"
  "to_double (700 / 100) = Fin 7"
  "\<lfloor>7 :: rat\<rfloor> = 7"
  "digits_to_int ''1000'' = 1000"
proof -
  have dv: "decimal_value ''0.70'' = 7 / 10"
    by (simp add: decimal_value_def digits_to_int_def digit_val_def)
  have "to_double (7 / 10) = Fin (3152519739159347 / 4503599627370496)"
    by (rule to_double_near [where e = "-1" and n = 6305039478318694]) (simp_all add: pow2_def)
  then show "to_double (decimal_value ''0.70'') = Fin (3152519739159347 / 4503599627370496)"
    by (simp only: dv)
  show "to_double (rat_of_int 1000) = Fin 1000"
    by (rule to_double_near [where e = 9 and n = 8796093022208000]) (simp_all add: pow2_def)
  show "to_double (1000 * (3152519739159347 / 4503599627370496)) = Fin 700"
    by (rule to_double_near [where e = 9 and n = 6157265115545600]) (simp_all add: pow2_def)
  show "to_double (700 / 100) = Fin 7"
    by (rule to_double_near [where e = 2 and n = 7881299347898368]) (simp_all add: pow2_def)
  show "\<lfloor>7 :: rat\<rfloor> = 7"
    by (rule floor_unique) simp_all
  show "digits_to_int ''1000'' = 1000"
    by (simp add: digits_to_int_def digit_val_def)
qed

lemma record_0_70_of_1000:
  "parse_gcov_output 4300 (always (Completed (tool_output ''a.c'' ''0.70'' ''1000'') [])) ''build/a.gcda''
   = Some \<lparr>file_name = ''a.c'', percentage = Fin (3152519739159347 / 4503599627370496),
            covered = 7, total = 1000\<rparr>"
proof -
  have run: "(always (Completed (tool_output ''a.c'' ''0.70'' ''1000'') [])) ''build/a.gcda''
             = Completed (tool_output ''a.c'' ''0.70'' ''1000'') []"
    by (simp add: always_def)
  have lim: "\<not> ((4300::nat) \<noteq> 0 \<and> 4300 < length ''1000'')"
    by simp
  show ?thesis
    by (simp only: parse_gcov_output_lines [where maxd = 4300 and f = "''build/a.gcda''"
            and gcov = "always (Completed (tool_output ''a.c'' ''0.70'' ''1000'') [])",
            OF run lines_0_70_of_1000]
          lim if_False rounding_0_70_of_1000 pyfloat.case)
qed

lemma lines_75_of_40:
  "first_file_line (tool_output ''src/core/engine.c'' ''75.00'' ''40'' @ []) ''src/core/engine.c''"
  "first_coverage_line (tool_output ''src/core/engine.c'' ''75.00'' ''40'' @ []) ''75.00'' ''40''"
proof -
  have "re_search file_re (tool_output ''src/core/engine.c'' ''75.00'' ''40'' @ []) = Some [''src/core/engine.c'']"
    unfolding tool_output_def by code_simp
  then show "first_file_line (tool_output ''src/core/engine.c'' ''75.00'' ''40'' @ []) ''src/core/engine.c''"
    by (simp add: re_search_file_Some)
  have "re_search coverage_re (tool_output ''src/core/engine.c'' ''75.00'' ''40'' @ []) = Some [''75.00'', ''40'']"
    unfolding tool_output_def by code_simp
  then show "first_coverage_line (tool_output ''src/core/engine.c'' ''75.00'' ''40'' @ []) ''75.00'' ''40''"
    by (simp add: re_search_coverage_Some)
qed

lemma rounding_75_of_40:
  "to_double (decimal_value ''75.00'') = Fin 75"
  "to_double (rat_of_int 40) = Fin 40"
  "to_double (40 * 75) = Fin 3000"
  "to_double (3000 / 100) = Fin 30"
  "\<lfloor>30 :: rat\<rfloor> = 30"
  "digits_to_int ''40'' = 40"
proof -
  have dv: "decimal_value ''75.00'' = 75"
    by (simp add: decimal_value_def digits_to_int_def digit_val_def)
  have "to_double (75) = Fin 75"
    by (rule to_double_near [where e = 6 and n = 5277655813324800]) (simp_all add: pow2_def)
  then show "to_double (decimal_value ''75.00'') = Fin 75"
    by (simp only: dv)
  show "to_double (rat_of_int 40) = Fin 40"
    by (rule to_double_near [where e = 5 and n = 5629499534213120]) (simp_all add: pow2_def)
  show "to_double (40 * 75) = Fin 3000"
    by (rule to_double_near [where e = 11 and n = 6597069766656000]) (simp_all add: pow2_def)
  show "to_double (3000 / 100) = Fin 30"
    by (rule to_double_near [where e = 4 and n = 8444249301319680]) (simp_all add: pow2_def)
  show "\<lfloor>30 :: rat\<rfloor> = 30"
    by (rule floor_unique) simp_all
  show "digits_to_int ''40'' = 40"
    by (simp add: digits_to_int_def digit_val_def)
qed

lemma record_75_of_40:
  "parse_gcov_output 4300 (always (Completed (tool_output ''src/core/engine.c'' ''75.00'' ''40'') [])) ''build/a.gcda''
   = Some \<lparr>file_name = ''src/core/engine.c'', percentage = Fin 75,
            covered = 30, total = 40\<rparr>"
proof -
  have run: "(always (Completed (tool_output ''src/core/engine.c'' ''75.00'' ''40'') [])) ''build/a.gcda''
             = Completed (tool_output ''src/core/engine.c'' ''75.00'' ''40'') []"
    by (simp add: always_def)
  have lim: "\<not> ((4300::nat) \<noteq> 0 \<and> 4300 < length ''40'')"
    by simp
  show ?thesis
    by (simp only: parse_gcov_output_lines [where maxd = 4300 and f = "''build/a.gcda''"
            and gcov = "always (Completed (tool_output ''src/core/engine.c'' ''75.00'' ''40'') [])",
            OF run lines_75_of_40]
          lim if_False rounding_75_of_40 pyfloat.case)
qed

lemma lines_100_of_large:
  "first_file_line (tool_output ''a.c'' ''100.00'' ''5764607523034242'' @ []) ''a.c''"
  "first_coverage_line (tool_output ''a.c'' ''100.00'' ''5764607523034242'' @ []) ''100.00'' ''5764607523034242''"
proof -
  have "re_search file_re (tool_output ''a.c'' ''100.00'' ''5764607523034242'' @ []) = Some [''a.c'']"
    unfolding tool_output_def by code_simp
  then show "first_file_line (tool_output ''a.c'' ''100.00'' ''5764607523034242'' @ []) ''a.c''"
    by (simp add: re_search_file_Some)
  have "re_search coverage_re (tool_output ''a.c'' ''100.00'' ''5764607523034242'' @ []) = Some [''100.00'', ''5764607523034242'']"
    unfolding tool_output_def by code_simp
  then show "first_coverage_line (tool_output ''a.c'' ''100.00'' ''5764607523034242'' @ []) ''100.00'' ''5764607523034242''"
    by (simp add: re_search_coverage_Some)
qed

lemma rounding_100_of_large:
  "to_double (decimal_value ''100.00'') = Fin 100"
  "to_double (rat_of_int 5764607523034242) = Fin 5764607523034242"
  "to_double (5764607523034242 * 100) = Fin 576460752303424256"
  "to_double (576460752303424256 / 100) = Fin 5764607523034243"
  "\<lfloor>5764607523034243 :: rat\<rfloor> = 5764607523034243"
  "digits_to_int ''5764607523034242'' = 5764607523034242"
proof -
  have dv: "decimal_value ''100.00'' = 100"
    by (simp add: decimal_value_def digits_to_int_def digit_val_def)
  have "to_double (100) = Fin 100"
    by (rule to_double_near [where e = 6 and n = 7036874417766400]) (simp_all add: pow2_def)
  then show "to_double (decimal_value ''100.00'') = Fin 100"
    by (simp only: dv)
  show "to_double (rat_of_int 5764607523034242) = Fin 5764607523034242"
    by (rule to_double_near [where e = 52 and n = 5764607523034242]) (simp_all add: pow2_def)
  show "to_double (5764607523034242 * 100) = Fin 576460752303424256"
    by (rule to_double_near [where e = 59 and n = 4503599627370502]) (simp_all add: pow2_def)
  show "to_double (576460752303424256 / 100) = Fin 5764607523034243"
    by (rule to_double_near [where e = 52 and n = 5764607523034243]) (simp_all add: pow2_def)
  show "\<lfloor>5764607523034243 :: rat\<rfloor> = 5764607523034243"
    by (rule floor_unique) simp_all
  show "digits_to_int ''5764607523034242'' = 5764607523034242"
    by (simp add: digits_to_int_def digit_val_def)
qed

lemma record_100_of_large:
  "parse_gcov_output 4300 (always (Completed (tool_output ''a.c'' ''100.00'' ''5764607523034242'') [])) ''build/a.gcda''
   = Some \<lparr>file_name = ''a.c'', percentage = Fin 100,
            covered = 5764607523034243, total = 5764607523034242\<rparr>"
proof -
  have run: "(always (Completed (tool_output ''a.c'' ''100.00'' ''5764607523034242'') [])) ''build/a.gcda''
             = Completed (tool_output ''a.c'' ''100.00'' ''5764607523034242'') []"
    by (simp add: always_def)
  have lim: "\<not> ((4300::nat) \<noteq> 0 \<and> 4300 < length ''5764607523034242'')"
    by simp
  show ?thesis
    by (simp only: parse_gcov_output_lines [where maxd = 4300 and f = "''build/a.gcda''"
            and gcov = "always (Completed (tool_output ''a.c'' ''100.00'' ''5764607523034242'') [])",
            OF run lines_100_of_large]
          lim if_False rounding_100_of_large pyfloat.case)
qed

lemma lines_150_of_0:
  "first_file_line (tool_output ''a.c'' ''150.00'' ''0'' @ []) ''a.c''"
  "first_coverage_line (tool_output ''a.c'' ''150.00'' ''0'' @ []) ''150.00'' ''0''"
proof -
  have "re_search file_re (tool_output ''a.c'' ''150.00'' ''0'' @ []) = Some [''a.c'']"
    unfolding tool_output_def by code_simp
  then show "first_file_line (tool_output ''a.c'' ''150.00'' ''0'' @ []) ''a.c''"
    by (simp add: re_search_file_Some)
  have "re_search coverage_re (tool_output ''a.c'' ''150.00'' ''0'' @ []) = Some [''150.00'', ''0'']"
    unfolding tool_output_def by code_simp
  then show "first_coverage_line (tool_output ''a.c'' ''150.00'' ''0'' @ []) ''150.00'' ''0''"
    by (simp add: re_search_coverage_Some)
qed

lemma rounding_150_of_0:
  "to_double (decimal_value ''150.00'') = Fin 150"
  "to_double (rat_of_int 0) = Fin 0"
  "to_double (0 * 150) = Fin 0"
  "to_double (0 / 100) = Fin 0"
  "\<lfloor>0 :: rat\<rfloor> = 0"
  "digits_to_int ''0'' = 0"
proof -
  have dv: "decimal_value ''150.00'' = 150"
    by (simp add: decimal_value_def digits_to_int_def digit_val_def)
  have "to_double (150) = Fin 150"
    by (rule to_double_near [where e = 7 and n = 5277655813324800]) (simp_all add: pow2_def)
  then show "to_double (decimal_value ''150.00'') = Fin 150"
    by (simp only: dv)
  show "to_double (rat_of_int 0) = Fin 0"
    by (simp add: to_double_zero)
  show "to_double (0 * 150) = Fin 0"
    by (simp add: to_double_zero)
  show "to_double (0 / 100) = Fin 0"
    by (simp add: to_double_zero)
  show "\<lfloor>0 :: rat\<rfloor> = 0"
    by (rule floor_unique) simp_all
  show "digits_to_int ''0'' = 0"
    by (simp add: digits_to_int_def digit_val_def)
qed

lemma record_150_of_0:
  "parse_gcov_output 4300 (always (Completed (tool_output ''a.c'' ''150.00'' ''0'') [])) ''build/a.gcda''
   = Some \<lparr>file_name = ''a.c'', percentage = Fin 150,
            covered = 0, total = 0\<rparr>"
proof -
  have run: "(always (Completed (tool_output ''a.c'' ''150.00'' ''0'') [])) ''build/a.gcda''
             = Completed (tool_output ''a.c'' ''150.00'' ''0'') []"
    by (simp add: always_def)
  have lim: "\<not> ((4300::nat) \<noteq> 0 \<and> 4300 < length ''0'')"
    by simp
  show ?thesis
    by (simp only: parse_gcov_output_lines [where maxd = 4300 and f = "''build/a.gcda''"
            and gcov = "always (Completed (tool_output ''a.c'' ''150.00'' ''0'') [])",
            OF run lines_150_of_0]
          lim if_False rounding_150_of_0 pyfloat.case)
qed

lemma lines_200_of_10:
  "first_file_line (tool_output ''a.c'' ''200.00'' ''10'' @ []) ''a.c''"
  "first_coverage_line (tool_output ''a.c'' ''200.00'' ''10'' @ []) ''200.00'' ''10''"
proof -
  have "re_search file_re (tool_output ''a.c'' ''200.00'' ''10'' @ []) = Some [''a.c'']"
    unfolding tool_output_def by code_simp
  then show "first_file_line (tool_output ''a.c'' ''200.00'' ''10'' @ []) ''a.c''"
    by (simp add: re_search_file_Some)
  have "re_search coverage_re (tool_output ''a.c'' ''200.00'' ''10'' @ []) = Some [''200.00'', ''10'']"
    unfolding tool_output_def by code_simp
  then show "first_coverage_line (tool_output ''a.c'' ''200.00'' ''10'' @ []) ''200.00'' ''10''"
    by (simp add: re_search_coverage_Some)
qed

lemma rounding_200_of_10:
  "to_double (decimal_value ''200.00'') = Fin 200"
  "to_double (rat_of_int 10) = Fin 10"
  "to_double (10 * 200) = Fin 2000"
  "to_double (2000 / 100) = Fin 20"
  "\<lfloor>20 :: rat\<rfloor> = 20"
  "digits_to_int ''10'' = 10"
proof -
  have dv: "decimal_value ''200.00'' = 200"
    by (simp add: decimal_value_def digits_to_int_def digit_val_def)
  have "to_double (200) = Fin 200"
    by (rule to_double_near [where e = 7 and n = 7036874417766400]) (simp_all add: pow2_def)
  then show "to_double (decimal_value ''200.00'') = Fin 200"
    by (simp only: dv)
  show "to_double (rat_of_int 10) = Fin 10"
    by (rule to_double_near [where e = 3 and n = 5629499534213120]) (simp_all add: pow2_def)
  show "to_double (10 * 200) = Fin 2000"
    by (rule to_double_near [where e = 10 and n = 8796093022208000]) (simp_all add: pow2_def)
  show "to_double (2000 / 100) = Fin 20"
    by (rule to_double_near [where e = 4 and n = 5629499534213120]) (simp_all add: pow2_def)
  show "\<lfloor>20 :: rat\<rfloor> = 20"
    by (rule floor_unique) simp_all
  show "digits_to_int ''10'' = 10"
    by (simp add: digits_to_int_def digit_val_def)
qed

lemma record_200_of_10:
  "parse_gcov_output 4300 (always (Completed (tool_output ''a.c'' ''200.00'' ''10'') [])) ''build/a.gcda''
   = Some \<lparr>file_name = ''a.c'', percentage = Fin 200,
            covered = 20, total = 10\<rparr>"
proof -
  have run: "(always (Completed (tool_output ''a.c'' ''200.00'' ''10'') [])) ''build/a.gcda''
             = Completed (tool_output ''a.c'' ''200.00'' ''10'') []"
    by (simp add: always_def)
  have lim: "\<not> ((4300::nat) \<noteq> 0 \<and> 4300 < length ''10'')"
    by simp
  show ?thesis
    by (simp only: parse_gcov_output_lines [where maxd = 4300 and f = "''build/a.gcda''"
            and gcov = "always (Completed (tool_output ''a.c'' ''200.00'' ''10'') [])",
            OF run lines_200_of_10]
          lim if_False rounding_200_of_10 pyfloat.case)
qed

lemma lines_overflow:
  "first_file_line (tool_output ''a.c'' ''50.00'' ''200000000000000000000000000000000000000000000000000000000000000000000000000000000000000000000000000000000000000000000000000000000000000000000000000000000000000000000000000000000000000000000000000000000000000000000000000000000000000000000000000000000000000000000000000000000000000000000000000000000000000000000'' @ []) ''a.c''"
  "first_coverage_line (tool_output ''a.c'' ''50.00'' ''200000000000000000000000000000000000000000000000000000000000000000000000000000000000000000000000000000000000000000000000000000000000000000000000000000000000000000000000000000000000000000000000000000000000000000000000000000000000000000000000000000000000000000000000000000000000000000000000000000000000000000000'' @ []) ''50.00'' ''200000000000000000000000000000000000000000000000000000000000000000000000000000000000000000000000000000000000000000000000000000000000000000000000000000000000000000000000000000000000000000000000000000000000000000000000000000000000000000000000000000000000000000000000000000000000000000000000000000000000000000000''"
proof -
  have "re_search file_re (tool_output ''a.c'' ''50.00'' ''200000000000000000000000000000000000000000000000000000000000000000000000000000000000000000000000000000000000000000000000000000000000000000000000000000000000000000000000000000000000000000000000000000000000000000000000000000000000000000000000000000000000000000000000000000000000000000000000000000000000000000000'' @ []) = Some [''a.c'']"
    unfolding tool_output_def by code_simp
  then show "first_file_line (tool_output ''a.c'' ''50.00'' ''200000000000000000000000000000000000000000000000000000000000000000000000000000000000000000000000000000000000000000000000000000000000000000000000000000000000000000000000000000000000000000000000000000000000000000000000000000000000000000000000000000000000000000000000000000000000000000000000000000000000000000000'' @ []) ''a.c''"
    by (simp add: re_search_file_Some)
  have "re_search coverage_re (tool_output ''a.c'' ''50.00'' ''200000000000000000000000000000000000000000000000000000000000000000000000000000000000000000000000000000000000000000000000000000000000000000000000000000000000000000000000000000000000000000000000000000000000000000000000000000000000000000000000000000000000000000000000000000000000000000000000000000000000000000000'' @ [])
        = Some [''50.00'', ''200000000000000000000000000000000000000000000000000000000000000000000000000000000000000000000000000000000000000000000000000000000000000000000000000000000000000000000000000000000000000000000000000000000000000000000000000000000000000000000000000000000000000000000000000000000000000000000000000000000000000000000'']"
    unfolding tool_output_def by code_simp
  then show "first_coverage_line (tool_output ''a.c'' ''50.00'' ''200000000000000000000000000000000000000000000000000000000000000000000000000000000000000000000000000000000000000000000000000000000000000000000000000000000000000000000000000000000000000000000000000000000000000000000000000000000000000000000000000000000000000000000000000000000000000000000000000000000000000000000'' @ []) ''50.00'' ''200000000000000000000000000000000000000000000000000000000000000000000000000000000000000000000000000000000000000000000000000000000000000000000000000000000000000000000000000000000000000000000000000000000000000000000000000000000000000000000000000000000000000000000000000000000000000000000000000000000000000000000''"
    by (simp add: re_search_coverage_Some)
qed

lemma rounding_overflow:
  "to_double (rat_of_int 200000000000000000000000000000000000000000000000000000000000000000000000000000000000000000000000000000000000000000000000000000000000000000000000000000000000000000000000000000000000000000000000000000000000000000000000000000000000000000000000000000000000000000000000000000000000000000000000000000000000000000000) = PInf"
  "digits_to_int ''200000000000000000000000000000000000000000000000000000000000000000000000000000000000000000000000000000000000000000000000000000000000000000000000000000000000000000000000000000000000000000000000000000000000000000000000000000000000000000000000000000000000000000000000000000000000000000000000000000000000000000000'' = 200000000000000000000000000000000000000000000000000000000000000000000000000000000000000000000000000000000000000000000000000000000000000000000000000000000000000000000000000000000000000000000000000000000000000000000000000000000000000000000000000000000000000000000000000000000000000000000000000000000000000000000"
proof -
  show "to_double (rat_of_int 200000000000000000000000000000000000000000000000000000000000000000000000000000000000000000000000000000000000000000000000000000000000000000000000000000000000000000000000000000000000000000000000000000000000000000000000000000000000000000000000000000000000000000000000000000000000000000000000000000000000000000000) = PInf"
    by (rule to_double_overflow) (simp add: pow2_def)
  show "digits_to_int ''200000000000000000000000000000000000000000000000000000000000000000000000000000000000000000000000000000000000000000000000000000000000000000000000000000000000000000000000000000000000000000000000000000000000000000000000000000000000000000000000000000000000000000000000000000000000000000000000000000000000000000000'' = 200000000000000000000000000000000000000000000000000000000000000000000000000000000000000000000000000000000000000000000000000000000000000000000000000000000000000000000000000000000000000000000000000000000000000000000000000000000000000000000000000000000000000000000000000000000000000000000000000000000000000000000"
    by (simp add: digits_to_int_def digit_val_def)
qed

lemma record_overflow:
  "parse_gcov_output 4300 (always (Completed (tool_output ''a.c'' ''50.00'' ''200000000000000000000000000000000000000000000000000000000000000000000000000000000000000000000000000000000000000000000000000000000000000000000000000000000000000000000000000000000000000000000000000000000000000000000000000000000000000000000000000000000000000000000000000000000000000000000000000000000000000000000'') []))
     ''build/a.gcda'' = None"
proof -
  have run: "(always (Completed (tool_output ''a.c'' ''50.00'' ''200000000000000000000000000000000000000000000000000000000000000000000000000000000000000000000000000000000000000000000000000000000000000000000000000000000000000000000000000000000000000000000000000000000000000000000000000000000000000000000000000000000000000000000000000000000000000000000000000000000000000000000'') [])) ''build/a.gcda''
             = Completed (tool_output ''a.c'' ''50.00'' ''200000000000000000000000000000000000000000000000000000000000000000000000000000000000000000000000000000000000000000000000000000000000000000000000000000000000000000000000000000000000000000000000000000000000000000000000000000000000000000000000000000000000000000000000000000000000000000000000000000000000000000000'') []"
    by (simp add: always_def)
  have lim: "\<not> ((4300::nat) \<noteq> 0 \<and> 4300 < length ''200000000000000000000000000000000000000000000000000000000000000000000000000000000000000000000000000000000000000000000000000000000000000000000000000000000000000000000000000000000000000000000000000000000000000000000000000000000000000000000000000000000000000000000000000000000000000000000000000000000000000000000'')"
    by simp
  show ?thesis
    by (simp only: parse_gcov_output_lines [where maxd = 4300 and f = "''build/a.gcda''"
            and gcov = "always (Completed (tool_output ''a.c'' ''50.00'' ''200000000000000000000000000000000000000000000000000000000000000000000000000000000000000000000000000000000000000000000000000000000000000000000000000000000000000000000000000000000000000000000000000000000000000000000000000000000000000000000000000000000000000000000000000000000000000000000000000000000000000000000'') [])",
            OF run lines_overflow]
          lim if_False rounding_overflow pyfloat.case)
qed

subsection \<open>What extraction returns\<close>

text \<open>
  C1. When the combined output of the tool holds both lines, extraction returns a record
  if and only if the text of the total is within the interpreter's digit limit and the
  arithmetic on floats stays finite. The record then holds the path of the first file
  line, the binary64 number nearest to the percent, the total, and as covered lines the
  integer part of \<open>total * percentage / 100\<close> evaluated in binary64 arithmetic: the
  product is rounded, then the quotient.
\<close>

theorem C1_extraction:
  assumes "gcov f = Completed out err"
    and "first_file_line (out @ err) path"
    and "first_coverage_line (out @ err) percent tot"
  shows "parse_gcov_output maxd gcov f =
     (if maxd \<noteq> 0 \<and> maxd < length tot then None
      else case to_double (of_int (digits_to_int tot)) of
             Fin t \<Rightarrow>
               (case to_double (decimal_value percent) of
                  Fin p \<Rightarrow>
                    (case to_double (t * p) of
                       Fin m \<Rightarrow>
                         (case to_double (m / 100) of
                            Fin c \<Rightarrow> Some \<lparr>file_name = path, percentage = Fin p,
                                            covered = \<lfloor>c\<rfloor>, total = digits_to_int tot\<rparr>
                          | _ \<Rightarrow> None)
                     | _ \<Rightarrow> None)
                | _ \<Rightarrow> None)
           | _ \<Rightarrow> None)"
  using assms by (rule parse_gcov_output_lines)

theorem C1_extraction_witness:
  "first_file_line (tool_output ''src/core/engine.c'' ''75.00'' ''40'' @ []) ''src/core/engine.c''
   \<and> first_coverage_line (tool_output ''src/core/engine.c'' ''75.00'' ''40'' @ []) ''75.00'' ''40''
   \<and> parse_gcov_output 4300
         (always (Completed (tool_output ''src/core/engine.c'' ''75.00'' ''40'') []))
         ''build/engine.gcda''
       = Some \<lparr>file_name = ''src/core/engine.c'', percentage = Fin 75,
                covered = 30, total = 40\<rparr>"
proof -
  have run: "(always (Completed (tool_output ''src/core/engine.c'' ''75.00'' ''40'') []))
               ''build/engine.gcda''
             = Completed (tool_output ''src/core/engine.c'' ''75.00'' ''40'') []"
    by (simp add: always_def)
  have lim: "\<not> ((4300::nat) \<noteq> 0 \<and> 4300 < length ''40'')"
    by simp
  have "parse_gcov_output 4300
         (always (Completed (tool_output ''src/core/engine.c'' ''75.00'' ''40'') []))
         ''build/engine.gcda''
       = Some \<lparr>file_name = ''src/core/engine.c'', percentage = Fin 75,
                covered = 30, total = 40\<rparr>"
    by (simp only: C1_extraction [where maxd = 4300 and f = "''build/engine.gcda''"
            and gcov = "always (Completed (tool_output ''src/core/engine.c'' ''75.00'' ''40'') [])",
            OF run lines_75_of_40]
          lim if_False rounding_75_of_40 pyfloat.case)
  with lines_75_of_40 show ?thesis by simp
qed

text \<open>
  The integer part of the exact value is another number: 18.40 percent of 375 lines are
  69 lines, and the record holds 68; the binary64 number nearest to 0.70, times 1000 and
  divided by 100, is below 7, and the record holds 7. A total of 309 digits is too large
  for a float, and an output with both lines then gives no record.
\<close>

theorem C1_counterexample:
  "parse_gcov_output 4300 (always (Completed (tool_output ''a.c'' ''18.40'' ''375'') []))
       ''build/a.gcda''
     = Some \<lparr>file_name = ''a.c'', percentage = Fin (2589569785738035 / 140737488355328),
              covered = 68, total = 375\<rparr>
   \<and> \<lfloor>of_int (digits_to_int ''375'') * decimal_value ''18.40'' / 100\<rfloor> = (69 :: int)
   \<and> parse_gcov_output 4300 (always (Completed (tool_output ''a.c'' ''0.70'' ''1000'') []))
       ''build/a.gcda''
     = Some \<lparr>file_name = ''a.c'', percentage = Fin (3152519739159347 / 4503599627370496),
              covered = 7, total = 1000\<rparr>
   \<and> \<lfloor>1000 * (3152519739159347 / 4503599627370496) / 100 :: rat\<rfloor> = 6
   \<and> first_file_line (tool_output ''a.c'' ''50.00'' ''200000000000000000000000000000000000000000000000000000000000000000000000000000000000000000000000000000000000000000000000000000000000000000000000000000000000000000000000000000000000000000000000000000000000000000000000000000000000000000000000000000000000000000000000000000000000000000000000000000000000000000000'' @ []) ''a.c''
   \<and> first_coverage_line (tool_output ''a.c'' ''50.00'' ''200000000000000000000000000000000000000000000000000000000000000000000000000000000000000000000000000000000000000000000000000000000000000000000000000000000000000000000000000000000000000000000000000000000000000000000000000000000000000000000000000000000000000000000000000000000000000000000000000000000000000000000'' @ []) ''50.00'' ''200000000000000000000000000000000000000000000000000000000000000000000000000000000000000000000000000000000000000000000000000000000000000000000000000000000000000000000000000000000000000000000000000000000000000000000000000000000000000000000000000000000000000000000000000000000000000000000000000000000000000000000''
   \<and> parse_gcov_output 4300 (always (Completed (tool_output ''a.c'' ''50.00'' ''200000000000000000000000000000000000000000000000000000000000000000000000000000000000000000000000000000000000000000000000000000000000000000000000000000000000000000000000000000000000000000000000000000000000000000000000000000000000000000000000000000000000000000000000000000000000000000000000000000000000000000000'') []))
       ''build/a.gcda'' = None"
proof -
  have dv: "decimal_value ''18.40'' = 92 / 5"
    by (simp add: decimal_value_def digits_to_int_def digit_val_def)
  have "\<lfloor>rat_of_int 375 * (92 / 5) / 100\<rfloor> = (69 :: int)"
    by (rule floor_unique) simp_all
  then have "\<lfloor>of_int (digits_to_int ''375'') * decimal_value ''18.40'' / 100\<rfloor> = (69 :: int)"
    by (simp only: dv rounding_18_40_of_375(6))
  moreover have "\<lfloor>1000 * (3152519739159347 / 4503599627370496) / 100 :: rat\<rfloor> = 6"
    by (rule floor_unique) simp_all
  ultimately show ?thesis
    using record_18_40_of_375 record_0_70_of_1000 lines_overflow record_overflow
    by (simp only: simp_thms)
qed

text \<open>
  C2. No record comes back when the tool could not be run, when the combined output has
  no file line, or when it has no coverage line; and whatever the body of the function
  raises is caught and answered with no record.
\<close>

theorem C2_no_record:
  "(gcov f = Raised ex \<longrightarrow> parse_gcov_output maxd gcov f = None)
   \<and> (gcov f = Completed out err \<and> (no_file_line (out @ err) \<or> no_coverage_line (out @ err))
        \<longrightarrow> parse_gcov_output maxd gcov f = None)
   \<and> (parse_body maxd (gcov f) = Inl ex \<longrightarrow> parse_gcov_output maxd gcov f = None)"
  using parse_gcov_output_raised [of gcov f ex maxd]
    parse_gcov_output_no_file [of gcov f out err maxd]
    parse_gcov_output_no_coverage [of gcov f out err maxd]
    parse_gcov_output_caught [of maxd gcov f ex]
  by blast

theorem C2_no_record_witness:
  "parse_gcov_output 4300 (always (Raised OSError)) ''build/a.gcda'' = None
   \<and> no_file_line (''Lines executed:75.00% of 40'' @ ''gcov: warning'')
   \<and> parse_gcov_output 4300
         (always (Completed ''Lines executed:75.00% of 40'' ''gcov: warning'')) ''build/a.gcda''
       = None
   \<and> no_coverage_line ((''File '' @ [quote] @ ''a.c'' @ [quote]) @ ''Lines executed:75% of 40'')
   \<and> parse_gcov_output 4300
         (always (Completed (''File '' @ [quote] @ ''a.c'' @ [quote]) ''Lines executed:75% of 40''))
         ''build/a.gcda''
       = None"
proof -
  have r1: "always (Raised OSError) ''build/a.gcda'' = Raised OSError"
    by (simp add: always_def)
  have r2: "always (Completed ''Lines executed:75.00% of 40'' ''gcov: warning'') ''build/a.gcda''
            = Completed ''Lines executed:75.00% of 40'' ''gcov: warning''"
    by (simp add: always_def)
  have r3: "always (Completed (''File '' @ [quote] @ ''a.c'' @ [quote]) ''Lines executed:75% of 40'')
              ''build/a.gcda''
            = Completed (''File '' @ [quote] @ ''a.c'' @ [quote]) ''Lines executed:75% of 40''"
    by (simp add: always_def)
  have "re_search file_re (''Lines executed:75.00% of 40'' @ ''gcov: warning'') = None"
    by code_simp
  then have n2: "no_file_line (''Lines executed:75.00% of 40'' @ ''gcov: warning'')"
    by (simp only: re_search_file_None)
  have "re_search coverage_re
          ((''File '' @ [quote] @ ''a.c'' @ [quote]) @ ''Lines executed:75% of 40'') = None"
    by code_simp
  then have n3: "no_coverage_line
      ((''File '' @ [quote] @ ''a.c'' @ [quote]) @ ''Lines executed:75% of 40'')"
    by (simp only: re_search_coverage_None)
  show ?thesis
    using C2_no_record [where gcov = "always (Raised OSError)" and f = "''build/a.gcda''"
        and ex = OSError and maxd = 4300]
      C2_no_record [where gcov = "always (Completed ''Lines executed:75.00% of 40'' ''gcov: warning'')"
        and f = "''build/a.gcda''" and maxd = 4300
        and out = "''Lines executed:75.00% of 40''" and err = "''gcov: warning''"]
      C2_no_record [where gcov = "always (Completed (''File '' @ [quote] @ ''a.c'' @ [quote])
            ''Lines executed:75% of 40'')"
        and f = "''build/a.gcda''" and maxd = 4300
        and out = "''File '' @ [quote] @ ''a.c'' @ [quote]" and err = "''Lines executed:75% of 40''"]
      r1 r2 r3 n2 n3
    by blast
qed

subsection \<open>First occurrences\<close>

lemma first_file_lineI: "re_search file_re s = Some [path] \<Longrightarrow> first_file_line s path"
  by (simp add: re_search_file_Some)

lemma first_coverage_lineI:
  "re_search coverage_re s = Some [percent, tot] \<Longrightarrow> first_coverage_line s percent tot"
  by (simp add: re_search_coverage_Some)

lemma lines_several:
  "first_file_line
     ((tool_output ''src/core/engine.c'' ''75.00'' ''40'' @ tool_output ''b.c'' ''10.00'' ''20'') @ [])
     ''src/core/engine.c''"
  "first_coverage_line
     ((tool_output ''src/core/engine.c'' ''75.00'' ''40'' @ tool_output ''b.c'' ''10.00'' ''20'') @ [])
     ''75.00'' ''40''"
proof -
  have "re_search file_re
          ((tool_output ''src/core/engine.c'' ''75.00'' ''40''
            @ tool_output ''b.c'' ''10.00'' ''20'') @ [])
        = Some [''src/core/engine.c'']"
    unfolding tool_output_def by code_simp
  then show "first_file_line
     ((tool_output ''src/core/engine.c'' ''75.00'' ''40'' @ tool_output ''b.c'' ''10.00'' ''20'') @ [])
     ''src/core/engine.c''"
    by (rule first_file_lineI)
  have "re_search coverage_re
          ((tool_output ''src/core/engine.c'' ''75.00'' ''40''
            @ tool_output ''b.c'' ''10.00'' ''20'') @ [])
        = Some [''75.00'', ''40'']"
    unfolding tool_output_def by code_simp
  then show "first_coverage_line
     ((tool_output ''src/core/engine.c'' ''75.00'' ''40'' @ tool_output ''b.c'' ''10.00'' ''20'') @ [])
     ''75.00'' ''40''"
    by (rule first_coverage_lineI)
qed

lemma lines_split:
  "first_file_line
     ((''File '' @ [quote] @ ''src/core/engine.c'' @ [quote] @ [CHR 0x0A])
      @ (''Lines executed:75.00% of 40'' @ [CHR 0x0A] @ ''File '' @ [quote] @ ''z.c'' @ [quote]))
     ''src/core/engine.c''"
  "first_coverage_line
     ((''File '' @ [quote] @ ''src/core/engine.c'' @ [quote] @ [CHR 0x0A])
      @ (''Lines executed:75.00% of 40'' @ [CHR 0x0A] @ ''File '' @ [quote] @ ''z.c'' @ [quote]))
     ''75.00'' ''40''"
proof -
  have "re_search file_re
     ((''File '' @ [quote] @ ''src/core/engine.c'' @ [quote] @ [CHR 0x0A])
      @ (''Lines executed:75.00% of 40'' @ [CHR 0x0A] @ ''File '' @ [quote] @ ''z.c'' @ [quote]))
        = Some [''src/core/engine.c'']"
    by code_simp
  then show "first_file_line
     ((''File '' @ [quote] @ ''src/core/engine.c'' @ [quote] @ [CHR 0x0A])
      @ (''Lines executed:75.00% of 40'' @ [CHR 0x0A] @ ''File '' @ [quote] @ ''z.c'' @ [quote]))
     ''src/core/engine.c''"
    by (rule first_file_lineI)
  have "re_search coverage_re
     ((''File '' @ [quote] @ ''src/core/engine.c'' @ [quote] @ [CHR 0x0A])
      @ (''Lines executed:75.00% of 40'' @ [CHR 0x0A] @ ''File '' @ [quote] @ ''z.c'' @ [quote]))
        = Some [''75.00'', ''40'']"
    by code_simp
  then show "first_coverage_line
     ((''File '' @ [quote] @ ''src/core/engine.c'' @ [quote] @ [CHR 0x0A])
      @ (''Lines executed:75.00% of 40'' @ [CHR 0x0A] @ ''File '' @ [quote] @ ''z.c'' @ [quote]))
     ''75.00'' ''40''"
    by (rule first_coverage_lineI)
qed

text \<open>
  C10. The record is built from the first file line and the first coverage line of the
  text of standard output followed by the text of standard error, and from nothing else:
  two runs whose combined outputs have the same first lines give the same answer, whatever
  else the outputs hold, and a record that comes back carries the path, the percent and
  the total of those first lines.
\<close>

theorem C10_first_occurrence:
  assumes "gcov f = Completed out err"
    and "first_file_line (out @ err) path"
    and "first_coverage_line (out @ err) percent tot"
    and "gcov' f' = Completed out' err'"
    and "first_file_line (out' @ err') path"
    and "first_coverage_line (out' @ err') percent tot"
  shows "parse_gcov_output maxd gcov f = parse_gcov_output maxd gcov' f'
     \<and> (\<forall>r. parse_gcov_output maxd gcov f = Some r \<longrightarrow>
            file_name r = path \<and> percentage r = to_double (decimal_value percent)
            \<and> total r = digits_to_int tot)"
proof -
  note a = parse_gcov_output_lines [where gcov = gcov and f = f and maxd = maxd, OF assms(1,2,3)]
  note b = parse_gcov_output_lines [where gcov = gcov' and f = f' and maxd = maxd, OF assms(4,5,6)]
  have "parse_gcov_output maxd gcov f = parse_gcov_output maxd gcov' f'"
    by (simp only: a b)
  moreover have "file_name r = path \<and> percentage r = to_double (decimal_value percent)
            \<and> total r = digits_to_int tot" if "parse_gcov_output maxd gcov f = Some r" for r
    using that unfolding a by (auto split: if_splits pyfloat.splits)
  ultimately show ?thesis by blast
qed

theorem C10_first_occurrence_witness:
  "parse_gcov_output 4300
     (always (Completed (tool_output ''src/core/engine.c'' ''75.00'' ''40''
                         @ tool_output ''b.c'' ''10.00'' ''20'') []))
     ''build/engine.gcda''
   = parse_gcov_output 4300
     (always (Completed (''File '' @ [quote] @ ''src/core/engine.c'' @ [quote] @ [CHR 0x0A])
        (''Lines executed:75.00% of 40'' @ [CHR 0x0A] @ ''File '' @ [quote] @ ''z.c'' @ [quote])))
     ''build/engine.gcda''
   \<and> parse_gcov_output 4300
     (always (Completed (tool_output ''src/core/engine.c'' ''75.00'' ''40''
                         @ tool_output ''b.c'' ''10.00'' ''20'') []))
     ''build/engine.gcda''
   = Some \<lparr>file_name = ''src/core/engine.c'', percentage = Fin 75, covered = 30, total = 40\<rparr>"
proof -
  let ?g1 = "always (Completed (tool_output ''src/core/engine.c'' ''75.00'' ''40''
                         @ tool_output ''b.c'' ''10.00'' ''20'') [])"
  let ?g2 = "always (Completed (''File '' @ [quote] @ ''src/core/engine.c'' @ [quote] @ [CHR 0x0A])
        (''Lines executed:75.00% of 40'' @ [CHR 0x0A] @ ''File '' @ [quote] @ ''z.c'' @ [quote]))"
  have r1: "?g1 ''build/engine.gcda'' = Completed (tool_output ''src/core/engine.c'' ''75.00'' ''40''
                         @ tool_output ''b.c'' ''10.00'' ''20'') []"
    by (simp add: always_def)
  have r2: "?g2 ''build/engine.gcda''
        = Completed (''File '' @ [quote] @ ''src/core/engine.c'' @ [quote] @ [CHR 0x0A])
        (''Lines executed:75.00% of 40'' @ [CHR 0x0A] @ ''File '' @ [quote] @ ''z.c'' @ [quote])"
    by (simp add: always_def)
  have lim: "\<not> ((4300::nat) \<noteq> 0 \<and> 4300 < length ''40'')"
    by simp
  have rec: "parse_gcov_output 4300 ?g1 ''build/engine.gcda''
   = Some \<lparr>file_name = ''src/core/engine.c'', percentage = Fin 75, covered = 30, total = 40\<rparr>"
    by (simp only: parse_gcov_output_lines [where maxd = 4300 and f = "''build/engine.gcda''"
            and gcov = ?g1, OF r1 lines_several]
          lim if_False rounding_75_of_40 pyfloat.case)
  from C10_first_occurrence [where gcov = ?g1 and f = "''build/engine.gcda''"
      and gcov' = ?g2 and f' = "''build/engine.gcda''" and maxd = 4300,
      OF r1 lines_several r2 lines_split]
  have same: "parse_gcov_output 4300 ?g1 ''build/engine.gcda''
              = parse_gcov_output 4300 ?g2 ''build/engine.gcda''"
    by (rule conjunct1)
  show ?thesis by (rule conjI) (fact same, fact rec)
qed

subsection \<open>Bounds on the fields of a record\<close>

lemma record_fields:
  assumes "parse_gcov_output maxd gcov f = Some r"
  obtains tot pct t p m c where
    "digits tot" "percent_text pct"
    "to_double (of_int (digits_to_int tot)) = Fin t"
    "to_double (decimal_value pct) = Fin p"
    "to_double (t * p) = Fin m" "to_double (m / 100) = Fin c"
    "percentage r = Fin p" "covered r = \<lfloor>c\<rfloor>" "total r = digits_to_int tot"
proof -
  obtain out err path pct tot t p m c where
    cl: "first_coverage_line (out @ err) pct tot"
    and t: "to_double (of_int (digits_to_int tot)) = Fin t"
    and p: "to_double (decimal_value pct) = Fin p"
    and m: "to_double (t * p) = Fin m" and c: "to_double (m / 100) = Fin c"
    and r: "r = \<lparr>file_name = path, percentage = Fin p, covered = \<lfloor>c\<rfloor>,
                 total = digits_to_int tot\<rparr>"
    using assms by (rule parse_gcov_output_Some)
  show ?thesis
    using first_coverage_line_shape [OF cl] t p m c r by (intro that [of tot pct t p m c]) simp_all
qed

lemma record_nonneg:
  assumes "parse_gcov_output maxd gcov f = Some r"
  obtains p where "percentage r = Fin p" "0 \<le> p" "0 \<le> covered r" "0 \<le> total r"
proof -
  obtain tot pct t p m c where tot: "digits tot" and pct: "percent_text pct"
    and t: "to_double (of_int (digits_to_int tot)) = Fin t"
    and p: "to_double (decimal_value pct) = Fin p"
    and m: "to_double (t * p) = Fin m" and c: "to_double (m / 100) = Fin c"
    and r: "percentage r = Fin p" "covered r = \<lfloor>c\<rfloor>" "total r = digits_to_int tot"
    using assms by (rule record_fields)
  have T: "0 \<le> digits_to_int tot" using tot by (simp add: digits_def digits_to_int_nonneg)
  have t0: "0 \<le> t" using to_double_Fin_nonneg [OF _ t] T by simp
  have p0: "0 \<le> p" using to_double_Fin_nonneg [OF decimal_value_nonneg [OF pct] p] .
  have m0: "0 \<le> m" using to_double_Fin_nonneg [OF _ m] t0 p0 by simp
  have c0: "0 \<le> c" using to_double_Fin_nonneg [OF _ c] m0 by simp
  show ?thesis using r T p0 c0 by (intro that [of p]) simp_all
qed

lemma record_le_total:
  assumes "parse_gcov_output maxd gcov f = Some r"
    and "percentage r = Fin p" "p \<le> 100" "total r \<le> 90071992547409"
  shows "covered r \<le> total r"
proof -
  obtain tot pct t p' m c where tot: "digits tot" and pct: "percent_text pct"
    and t: "to_double (of_int (digits_to_int tot)) = Fin t"
    and p: "to_double (decimal_value pct) = Fin p'"
    and m: "to_double (t * p') = Fin m" and c: "to_double (m / 100) = Fin c"
    and r: "percentage r = Fin p'" "covered r = \<lfloor>c\<rfloor>" "total r = digits_to_int tot"
    using assms(1) by (rule record_fields)
  let ?T = "digits_to_int tot"
  have pp: "p' = p" using r(1) assms(2) by simp
  have T: "0 \<le> ?T" using tot by (simp add: digits_def digits_to_int_nonneg)
  have small: "?T \<le> 90071992547409" using assms(4) r(3) by simp
  then have "to_double (of_int ?T) = Fin (of_int ?T)"
    using T by (intro to_double_of_int) simp_all
  with t have tT: "t = of_int ?T" by simp
  have p0: "0 \<le> p" using to_double_Fin_nonneg [OF decimal_value_nonneg [OF pct] p] pp by simp
  have "t * p \<le> of_int ?T * 100"
    unfolding tT using assms(3) T by (intro mult_left_mono) simp_all
  then have "t * p \<le> of_int (?T * 100)" by simp
  moreover have "0 \<le> t * p" unfolding tT using T p0 by simp
  moreover have "?T * 100 < 2 ^ 53" using small by simp
  ultimately obtain m' where m': "to_double (t * p) = Fin m'" "0 \<le> m'" "m' \<le> of_int (?T * 100)"
    using to_double_le_int [of "t * p" "?T * 100"] by blast
  with m pp have mb: "0 \<le> m" "m \<le> of_int ?T * 100" by simp_all
  then have "m / 100 \<le> of_int ?T" by simp
  moreover have "0 \<le> m / 100" using mb by simp
  moreover have "?T < 2 ^ 53" using small by simp
  ultimately obtain c' where "to_double (m / 100) = Fin c'" "c' \<le> of_int ?T"
    using to_double_le_int [of "m / 100" ?T] by blast
  with c have "c \<le> of_int ?T" by simp
  then have "\<lfloor>c\<rfloor> \<le> ?T" by (simp add: floor_le_iff)
  with r show ?thesis by simp
qed

lemma record_ge_total:
  assumes "parse_gcov_output maxd gcov f = Some r"
    and "percentage r = Fin p" "100 \<le> p" "total r \<le> 90071992547409"
  shows "total r \<le> covered r"
proof -
  obtain tot pct t p' m c where tot: "digits tot" and pct: "percent_text pct"
    and t: "to_double (of_int (digits_to_int tot)) = Fin t"
    and p: "to_double (decimal_value pct) = Fin p'"
    and m: "to_double (t * p') = Fin m" and c: "to_double (m / 100) = Fin c"
    and r: "percentage r = Fin p'" "covered r = \<lfloor>c\<rfloor>" "total r = digits_to_int tot"
    using assms(1) by (rule record_fields)
  let ?T = "digits_to_int tot"
  have pp: "p' = p" using r(1) assms(2) by simp
  have T: "0 \<le> ?T" using tot by (simp add: digits_def digits_to_int_nonneg)
  have small: "?T \<le> 90071992547409" using assms(4) r(3) by simp
  then have "to_double (of_int ?T) = Fin (of_int ?T)"
    using T by (intro to_double_of_int) simp_all
  with t have tT: "t = of_int ?T" by simp
  have "of_int ?T * 100 \<le> t * p"
    unfolding tT using assms(3) T by (intro mult_left_mono) simp_all
  then have "of_int (?T * 100) \<le> t * p" by simp
  moreover have "?T * 100 < 2 ^ 53" using small by simp
  moreover have "0 \<le> ?T * 100" using T by simp
  ultimately have "to_double (t * p) = PInf \<or> (\<exists>r. to_double (t * p) = Fin r \<and> of_int (?T * 100) \<le> r)"
    by (intro to_double_ge_int)
  with m pp have mb: "of_int ?T * 100 \<le> m" by simp
  then have "of_int ?T \<le> m / 100" by simp
  moreover have "?T < 2 ^ 53" using small by simp
  ultimately have "to_double (m / 100) = PInf \<or> (\<exists>r. to_double (m / 100) = Fin r \<and> of_int ?T \<le> r)"
    using T by (intro to_double_ge_int)
  with c have "of_int ?T \<le> c" by simp
  then have "?T \<le> \<lfloor>c\<rfloor>" by (simp add: le_floor_iff)
  with r show ?thesis by simp
qed

text \<open>
  C9. A record that extraction returns has a finite percentage that is not negative, and
  covered and total lines that are not negative. When the total is at most
  90071992547409, so that a hundred times the total is exact in binary64, a percentage of
  at most 100 gives covered lines of at most the total, and a percentage of at least 100
  gives covered lines of at least the total. No upper bound is checked: 200 percent of 10
  lines give a record with 20 covered lines.
\<close>

theorem C9_record_bounds:
  "(parse_gcov_output maxd gcov f = Some r \<longrightarrow>
      (\<exists>p. percentage r = Fin p \<and> 0 \<le> p \<and> 0 \<le> covered r \<and> 0 \<le> total r
         \<and> (p \<le> 100 \<and> total r \<le> 90071992547409 \<longrightarrow> covered r \<le> total r)
         \<and> (100 \<le> p \<and> total r \<le> 90071992547409 \<longrightarrow> total r \<le> covered r)))
   \<and> parse_gcov_output 4300 (always (Completed (tool_output ''a.c'' ''200.00'' ''10'') []))
        ''build/a.gcda''
      = Some \<lparr>file_name = ''a.c'', percentage = Fin 200, covered = 20, total = 10\<rparr>"
proof (intro conjI impI)
  assume rec: "parse_gcov_output maxd gcov f = Some r"
  obtain p where p: "percentage r = Fin p" "0 \<le> p" "0 \<le> covered r" "0 \<le> total r"
    using rec by (rule record_nonneg)
  have "covered r \<le> total r" if "p \<le> 100" "total r \<le> 90071992547409"
    using rec p(1) that by (rule record_le_total)
  moreover have "total r \<le> covered r" if "100 \<le> p" "total r \<le> 90071992547409"
    using rec p(1) that by (rule record_ge_total)
  ultimately show "\<exists>p. percentage r = Fin p \<and> 0 \<le> p \<and> 0 \<le> covered r \<and> 0 \<le> total r
         \<and> (p \<le> 100 \<and> total r \<le> 90071992547409 \<longrightarrow> covered r \<le> total r)
         \<and> (100 \<le> p \<and> total r \<le> 90071992547409 \<longrightarrow> total r \<le> covered r)"
    using p by blast
next
  show "parse_gcov_output 4300 (always (Completed (tool_output ''a.c'' ''200.00'' ''10'') []))
        ''build/a.gcda''
      = Some \<lparr>file_name = ''a.c'', percentage = Fin 200, covered = 20, total = 10\<rparr>"
    by (rule record_200_of_10)
qed

theorem C9_record_bounds_witness:
  "parse_gcov_output 4300
     (always (Completed (tool_output ''src/core/engine.c'' ''75.00'' ''40'') [])) ''build/a.gcda''
   = Some \<lparr>file_name = ''src/core/engine.c'', percentage = Fin 75, covered = 30, total = 40\<rparr>
   \<and> covered \<lparr>file_name = ''src/core/engine.c'', percentage = Fin 75, covered = 30, total = 40\<rparr>
       \<le> total \<lparr>file_name = ''src/core/engine.c'', percentage = Fin 75, covered = 30, total = 40\<rparr>
   \<and> total \<lparr>file_name = ''a.c'', percentage = Fin 200, covered = 20, total = 10\<rparr>
       \<le> covered \<lparr>file_name = ''a.c'', percentage = Fin 200, covered = 20, total = 10\<rparr>"
proof -
  let ?r = "\<lparr>file_name = ''src/core/engine.c'', percentage = Fin 75, covered = 30, total = 40\<rparr>"
  let ?s = "\<lparr>file_name = ''a.c'', percentage = Fin 200, covered = 20, total = 10\<rparr>"
  have "covered ?r \<le> total ?r"
    using C9_record_bounds [where maxd = 4300 and f = "''build/a.gcda''" and r = ?r
        and gcov = "always (Completed (tool_output ''src/core/engine.c'' ''75.00'' ''40'') [])"]
      record_75_of_40
    by simp
  moreover have "total ?s \<le> covered ?s"
    using C9_record_bounds [where maxd = 4300 and f = "''build/a.gcda''" and r = ?s
        and gcov = "always (Completed (tool_output ''a.c'' ''200.00'' ''10'') [])"]
    by simp
  ultimately show ?thesis using record_75_of_40 by simp
qed

text \<open>
  Beyond that total the rounding of the product shows: 100 percent of 5764607523034242
  lines give one covered line more than the total. And a percentage above 100 need not
  give more covered lines than the total: 150 percent of no lines are no lines.
\<close>

theorem C9_counterexample:
  "parse_gcov_output 4300
     (always (Completed (tool_output ''a.c'' ''100.00'' ''5764607523034242'') [])) ''build/a.gcda''
   = Some \<lparr>file_name = ''a.c'', percentage = Fin 100,
            covered = 5764607523034243, total = 5764607523034242\<rparr>
   \<and> parse_gcov_output 4300
     (always (Completed (tool_output ''a.c'' ''150.00'' ''0'') [])) ''build/a.gcda''
   = Some \<lparr>file_name = ''a.c'', percentage = Fin 150, covered = 0, total = 0\<rparr>"
  using record_100_of_large record_150_of_0 by (rule conjI)

subsection \<open>Stable sorting\<close>

lemma mset_insort_lt: "mset (insort_lt lt key x ys) = add_mset x (mset ys)"
  by (induction ys) simp_all

lemma mset_foldl_insort_lt:
  "mset (foldl (\<lambda>acc x. insort_lt lt key x acc) acc xs) = mset acc + mset xs"
  by (induction xs arbitrary: acc) (simp_all add: mset_insort_lt)

lemma mset_py_sorted: "mset (py_sorted lt key xs) = mset xs"
  by (simp add: py_sorted_def mset_foldl_insort_lt)

lemma set_insort_lt: "set (insort_lt lt key x ys) = insert x (set ys)"
  using mset_insort_lt [of lt key x ys, THEN arg_cong, of set_mset] by simp

text \<open>
  A comparison of keys that agrees, on the elements at hand, with the order of a rank.
\<close>

lemma sorted_insort_lt:
  assumes "\<And>a b. a \<in> insert x (set ys) \<Longrightarrow> b \<in> insert x (set ys) \<Longrightarrow>
             lt (key a) (key b) = (g a < g b)"
    and "sorted (map g ys)"
  shows "sorted (map g (insort_lt lt key x ys))"
  using assms
proof (induction ys)
  case Nil
  then show ?case by simp
next
  case (Cons y ys)
  have lt: "lt (key x) (key y) = (g x < g y)" using Cons.prems(1) by simp
  show ?case
  proof (cases "g x < g y")
    case True
    then show ?thesis using Cons.prems(2) lt by auto
  next
    case False
    have "sorted (map g (insort_lt lt key x ys))"
      using Cons.prems by (intro Cons.IH) auto
    moreover have "g y \<le> g z" if "z \<in> set (insort_lt lt key x ys)" for z
      using that False Cons.prems(2) by (auto simp: set_insort_lt)
    ultimately show ?thesis using False lt by simp
  qed
qed

lemma filter_insort_lt:
  assumes "\<And>a b. a \<in> insert x (set ys) \<Longrightarrow> b \<in> insert x (set ys) \<Longrightarrow>
             lt (key a) (key b) = (g a < g b)"
    and "sorted (map g ys)"
  shows "filter (\<lambda>d. g d = k) (insort_lt lt key x ys)
         = filter (\<lambda>d. g d = k) ys @ (if g x = k then [x] else [])"
  using assms
proof (induction ys)
  case Nil
  then show ?case by simp
next
  case (Cons y ys)
  have lt: "lt (key x) (key y) = (g x < g y)" using Cons.prems(1) by simp
  show ?case
  proof (cases "g x < g y")
    case True
    have "g x < g z" if "z \<in> set (y # ys)" for z
      using that True Cons.prems(2) by auto
    then have "g z \<noteq> g x" if "z \<in> set (y # ys)" for z
      using that by fastforce
    then have "filter (\<lambda>d. g d = g x) (y # ys) = []"
      unfolding filter_empty_conv by blast
    then show ?thesis using True lt by auto
  next
    case False
    have "filter (\<lambda>d. g d = k) (insort_lt lt key x ys)
         = filter (\<lambda>d. g d = k) ys @ (if g x = k then [x] else [])"
      using Cons.prems by (intro Cons.IH) auto
    then show ?thesis using False lt by simp
  qed
qed

lemma foldl_insort_lt_sorted:
  assumes "\<And>a b. a \<in> set acc \<union> set xs \<Longrightarrow> b \<in> set acc \<union> set xs \<Longrightarrow>
             lt (key a) (key b) = (g a < g b)"
    and "sorted (map g acc)"
  shows "sorted (map g (foldl (\<lambda>acc x. insort_lt lt key x acc) acc xs))
       \<and> filter (\<lambda>d. g d = k) (foldl (\<lambda>acc x. insort_lt lt key x acc) acc xs)
         = filter (\<lambda>d. g d = k) acc @ filter (\<lambda>d. g d = k) xs"
  using assms
proof (induction xs arbitrary: acc)
  case Nil
  then show ?case by simp
next
  case (Cons x xs)
  have agree: "lt (key a) (key b) = (g a < g b)"
    if "a \<in> insert x (set acc)" "b \<in> insert x (set acc)" for a b
    using that Cons.prems(1) by auto
  have s: "sorted (map g (insort_lt lt key x acc))"
    using agree Cons.prems(2) by (rule sorted_insort_lt)
  have f: "filter (\<lambda>d. g d = k) (insort_lt lt key x acc)
         = filter (\<lambda>d. g d = k) acc @ (if g x = k then [x] else [])"
    using agree Cons.prems(2) by (rule filter_insort_lt)
  have "sorted (map g (foldl (\<lambda>acc x. insort_lt lt key x acc) (insort_lt lt key x acc) xs))
       \<and> filter (\<lambda>d. g d = k) (foldl (\<lambda>acc x. insort_lt lt key x acc) (insort_lt lt key x acc) xs)
         = filter (\<lambda>d. g d = k) (insort_lt lt key x acc) @ filter (\<lambda>d. g d = k) xs"
    using Cons.prems(1) s by (intro Cons.IH) (auto simp: set_insort_lt)
  then show ?case by (simp add: f)
qed

lemma py_sorted_by_rank:
  assumes "\<And>a b. a \<in> set xs \<Longrightarrow> b \<in> set xs \<Longrightarrow> lt (key a) (key b) = (g a < g b)"
  shows "sorted (map g (py_sorted lt key xs))"
    and "filter (\<lambda>d. g d = k) (py_sorted lt key xs) = filter (\<lambda>d. g d = k) xs"
  using foldl_insort_lt_sorted [of "[]" xs lt key g k] assms
  by (simp_all add: py_sorted_def)

lemma py_sorted_reverse_by_rank:
  assumes "\<And>a b. a \<in> set xs \<Longrightarrow> b \<in> set xs \<Longrightarrow> lt (key a) (key b) = (g a < g b)"
  shows "sorted (rev (map g (py_sorted_reverse lt key xs)))"
    and "filter (\<lambda>d. g d = k) (py_sorted_reverse lt key xs) = filter (\<lambda>d. g d = k) xs"
    and "mset (py_sorted_reverse lt key xs) = mset xs"
proof -
  have agree: "lt (key a) (key b) = (g a < g b)" if "a \<in> set (rev xs)" "b \<in> set (rev xs)" for a b
    using that assms by simp
  show "sorted (rev (map g (py_sorted_reverse lt key xs)))"
    using py_sorted_by_rank(1) [of "rev xs" lt key g, OF agree]
    by (simp add: py_sorted_reverse_def rev_map)
  have "filter (\<lambda>d. g d = k) (py_sorted lt key (rev xs)) = filter (\<lambda>d. g d = k) (rev xs)"
    using py_sorted_by_rank(2) [of "rev xs" lt key g, OF agree] by simp
  then show "filter (\<lambda>d. g d = k) (py_sorted_reverse lt key xs) = filter (\<lambda>d. g d = k) xs"
    by (simp add: py_sorted_reverse_def rev_filter [symmetric])
  show "mset (py_sorted_reverse lt key xs) = mset xs"
    by (simp add: py_sorted_reverse_def mset_py_sorted)
qed

subsection \<open>The two rankings of the report\<close>

lemma map_filter_mem:
  "r \<in> set (List.map_filter f xs) \<Longrightarrow> \<exists>x\<in>set xs. f x = Some r"
  by (induction xs) (auto split: option.splits)

lemma collect_finite:
  assumes "d \<in> set (collect e files)"
  shows "\<exists>x. percentage d = Fin x"
proof -
  obtain f where "parse_gcov_output (int_max_str_digits e) (run_gcov e) f = Some d"
    using assms map_filter_mem unfolding collect_def by fastforce
  then show ?thesis by (rule record_nonneg) blast
qed

lemma float_lt_value:
  "percentage a = Fin x \<Longrightarrow> percentage b = Fin y \<Longrightarrow>
   float_lt (percentage a) (percentage b)
   = (float_value (percentage a) < float_value (percentage b))"
  by simp

lemma filter_percentage:
  assumes "\<And>d. d \<in> set xs \<Longrightarrow> \<exists>x. percentage d = Fin x"
    and "\<And>d. d \<in> set ys \<Longrightarrow> \<exists>x. percentage d = Fin x"
    and "\<And>k. filter (\<lambda>d. float_value (percentage d) = k) xs
             = filter (\<lambda>d. float_value (percentage d) = k) ys"
  shows "filter (\<lambda>d. percentage d = p) xs = filter (\<lambda>d. percentage d = p) ys"
proof (cases p)
  case (Fin k)
  have "filter (\<lambda>d. percentage d = p) zs = filter (\<lambda>d. float_value (percentage d) = k) zs"
    if fin: "\<And>d. d \<in> set zs \<Longrightarrow> \<exists>x. percentage d = Fin x" for zs
  proof (rule filter_cong [OF refl])
    fix d assume "d \<in> set zs"
    then obtain x where "percentage d = Fin x" using fin by blast
    then show "(percentage d = p) = (float_value (percentage d) = k)"
      using Fin by simp
  qed
  note eq = this
  show ?thesis by (simp only: eq [OF assms(1)] eq [OF assms(2)] assms(3))
next
  case PInf
  have "filter (\<lambda>d. percentage d = p) zs = []"
    if "\<And>d. d \<in> set zs \<Longrightarrow> \<exists>x. percentage d = Fin x" for zs
    using that PInf by (fastforce simp: filter_empty_conv)
  note eq = this
  show ?thesis by (simp only: eq [OF assms(1)] eq [OF assms(2)])
next
  case NaN
  have "filter (\<lambda>d. percentage d = p) zs = []"
    if "\<And>d. d \<in> set zs \<Longrightarrow> \<exists>x. percentage d = Fin x" for zs
    using that NaN by (fastforce simp: filter_empty_conv)
  note eq = this
  show ?thesis by (simp only: eq [OF assms(1)] eq [OF assms(2)])
qed

lemma ranked_descending:
  assumes fin: "\<And>d. d \<in> set ds \<Longrightarrow> \<exists>x. percentage d = Fin x"
  shows "mset (py_sorted_reverse float_lt percentage ds) = mset ds"
    and "sorted_wrt (\<lambda>a b. \<not> float_lt (percentage a) (percentage b))
           (py_sorted_reverse float_lt percentage ds)"
    and "filter (\<lambda>d. percentage d = p) (py_sorted_reverse float_lt percentage ds)
         = filter (\<lambda>d. percentage d = p) ds"
proof -
  let ?g = "\<lambda>d. float_value (percentage d)"
  let ?S = "py_sorted_reverse float_lt percentage ds"
  have agree: "float_lt (percentage a) (percentage b) = (?g a < ?g b)"
    if "a \<in> set ds" "b \<in> set ds" for a b
    using fin [OF that(1)] fin [OF that(2)] by auto
  show m: "mset ?S = mset ds"
    by (rule py_sorted_reverse_by_rank(3) [of ds float_lt percentage ?g, OF agree])
  then have sets: "set ?S = set ds" by (rule mset_eq_setD)
  have "sorted (rev (map ?g ?S))"
    by (rule py_sorted_reverse_by_rank(1) [of ds float_lt percentage ?g, OF agree])
  then have "sorted_wrt (\<lambda>a b. ?g b \<le> ?g a) ?S"
    by (simp add: sorted_wrt_map sorted_wrt_rev flip: rev_map)
  then show "sorted_wrt (\<lambda>a b. \<not> float_lt (percentage a) (percentage b)) ?S"
  proof (rule sorted_wrt_mono_rel [rotated])
    fix a b assume "a \<in> set ?S" "b \<in> set ?S" "?g b \<le> ?g a"
    then show "\<not> float_lt (percentage a) (percentage b)"
      using agree [of a b] sets by simp
  qed
  have "filter (\<lambda>d. ?g d = k) ?S = filter (\<lambda>d. ?g d = k) ds" for k
    by (rule py_sorted_reverse_by_rank(2) [of ds float_lt percentage ?g, OF agree])
  then show "filter (\<lambda>d. percentage d = p) ?S = filter (\<lambda>d. percentage d = p) ds"
    using fin sets by (intro filter_percentage) auto
qed

lemma ranked_ascending:
  assumes fin: "\<And>d. d \<in> set ds \<Longrightarrow> \<exists>x. percentage d = Fin x"
  shows "mset (py_sorted float_lt percentage ds) = mset ds"
    and "sorted_wrt (\<lambda>a b. \<not> float_lt (percentage b) (percentage a))
           (py_sorted float_lt percentage ds)"
    and "filter (\<lambda>d. percentage d = p) (py_sorted float_lt percentage ds)
         = filter (\<lambda>d. percentage d = p) ds"
proof -
  let ?g = "\<lambda>d. float_value (percentage d)"
  let ?S = "py_sorted float_lt percentage ds"
  have agree: "float_lt (percentage a) (percentage b) = (?g a < ?g b)"
    if "a \<in> set ds" "b \<in> set ds" for a b
    using fin [OF that(1)] fin [OF that(2)] by auto
  show m: "mset ?S = mset ds" by (rule mset_py_sorted)
  then have sets: "set ?S = set ds" by (rule mset_eq_setD)
  have "sorted (map ?g ?S)"
    by (rule py_sorted_by_rank(1) [of ds float_lt percentage ?g, OF agree])
  then have "sorted_wrt (\<lambda>a b. ?g a \<le> ?g b) ?S"
    by (simp add: sorted_wrt_map)
  then show "sorted_wrt (\<lambda>a b. \<not> float_lt (percentage b) (percentage a)) ?S"
  proof (rule sorted_wrt_mono_rel [rotated])
    fix a b assume "a \<in> set ?S" "b \<in> set ?S" "?g a \<le> ?g b"
    then show "\<not> float_lt (percentage b) (percentage a)"
      using agree [of b a] sets by simp
  qed
  have "filter (\<lambda>d. ?g d = k) ?S = filter (\<lambda>d. ?g d = k) ds" for k
    by (rule py_sorted_by_rank(2) [of ds float_lt percentage ?g, OF agree])
  then show "filter (\<lambda>d. percentage d = p) ?S = filter (\<lambda>d. percentage d = p) ds"
    using fin sets by (intro filter_percentage) auto
qed

text \<open>
  C5. The table of best covered files holds the first ten of the records in descending
  order of percentage: no record stands before one with a larger percentage, the ranking
  is a rearrangement of the records, and records with the same percentage stand in the
  order in which they were found.
\<close>

theorem C5_top_ten:
  "top_files (collect e files)
     = take 10 (py_sorted_reverse float_lt percentage (collect e files))
   \<and> length (top_files (collect e files)) = min 10 (length (collect e files))
   \<and> mset (py_sorted_reverse float_lt percentage (collect e files)) = mset (collect e files)
   \<and> sorted_wrt (\<lambda>a b. \<not> float_lt (percentage a) (percentage b))
        (py_sorted_reverse float_lt percentage (collect e files))
   \<and> (\<forall>p. filter (\<lambda>d. percentage d = p)
               (py_sorted_reverse float_lt percentage (collect e files))
           = filter (\<lambda>d. percentage d = p) (collect e files))"
proof -
  let ?ds = "collect e files"
  have fin: "\<exists>x. percentage d = Fin x" if "d \<in> set ?ds" for d
    using that by (rule collect_finite)
  note r = ranked_descending [of ?ds, OF fin]
  have "length (py_sorted_reverse float_lt percentage ?ds) = length ?ds"
    using r(1) by (rule mset_eq_length)
  then have "length (top_files ?ds) = min 10 (length ?ds)"
    by (simp add: top_files_def min.commute)
  then show ?thesis using r by (simp add: top_files_def)
qed

text \<open>
  C6. The files that need improvement are the records with a percentage below 50, in
  ascending order of percentage, those with the same percentage in the order in which
  they were found. The header shows how many they are, at most the first fifteen are
  listed, and when there is none the all-clear line is printed instead.
\<close>

theorem C6_needs_improvement:
  "low_coverage (collect e files)
     = filter (\<lambda>d. float_value (percentage d) < 50) (collect e files)
   \<and> mset (py_sorted float_lt percentage (low_coverage (collect e files)))
       = mset (low_coverage (collect e files))
   \<and> sorted_wrt (\<lambda>a b. \<not> float_lt (percentage b) (percentage a))
        (py_sorted float_lt percentage (low_coverage (collect e files)))
   \<and> (\<forall>p. filter (\<lambda>d. percentage d = p)
               (py_sorted float_lt percentage (low_coverage (collect e files)))
           = filter (\<lambda>d. percentage d = p) (low_coverage (collect e files)))
   \<and> needs_improvement (collect e files)
       = (if low_coverage (collect e files) = [] then [Text ''All files have >50% coverage!'']
          else [NeedsImprovement (length (low_coverage (collect e files))), rule_line (CHR ''-'')]
               @ map file_row
                   (take 15 (py_sorted float_lt percentage (low_coverage (collect e files)))))
   \<and> length (take 15 (py_sorted float_lt percentage (low_coverage (collect e files)))) \<le> 15"
proof -
  let ?ds = "collect e files"
  have fin: "\<exists>x. percentage d = Fin x" if "d \<in> set ?ds" for d
    using that by (rule collect_finite)
  have low: "low_coverage ?ds = filter (\<lambda>d. float_value (percentage d) < 50) ?ds"
    unfolding low_coverage_def
  proof (rule filter_cong [OF refl])
    fix d assume "d \<in> set ?ds"
    then obtain x where "percentage d = Fin x" using fin by blast
    then show "float_lt (percentage d) (Fin 50) = (float_value (percentage d) < 50)"
      by simp
  qed
  have fin_low: "\<exists>x. percentage d = Fin x" if "d \<in> set (low_coverage ?ds)" for d
    using that fin by (simp add: low_coverage_def)
  note r = ranked_ascending [of "low_coverage ?ds", OF fin_low]
  have "needs_improvement ?ds
       = (if low_coverage ?ds = [] then [Text ''All files have >50% coverage!'']
          else [NeedsImprovement (length (low_coverage ?ds)), rule_line (CHR ''-'')]
               @ map file_row (take 15 (py_sorted float_lt percentage (low_coverage ?ds))))"
    by (simp add: needs_improvement_def Let_def)
  then show ?thesis using low r by simp
qed

subsection \<open>Percentages that cannot raise\<close>

lemma record_ratio:
  assumes "parse_gcov_output maxd gcov f = Some r"
  shows "0 \<le> covered r \<and> 0 \<le> total r \<and> of_int (covered r) \<le> pow2 1018 * of_int (total r)"
proof -
  obtain tot pct t p m c where tot: "digits tot" and pct: "percent_text pct"
    and t: "to_double (of_int (digits_to_int tot)) = Fin t"
    and p: "to_double (decimal_value pct) = Fin p"
    and m: "to_double (t * p) = Fin m" and c: "to_double (m / 100) = Fin c"
    and r: "percentage r = Fin p" "covered r = \<lfloor>c\<rfloor>" "total r = digits_to_int tot"
    using assms by (rule record_fields)
  obtain p' where nn: "0 \<le> covered r" "0 \<le> total r"
    using assms by (rule record_nonneg)
  let ?T = "digits_to_int tot"
  have T: "0 \<le> ?T" using nn r by simp
  have "of_int \<lfloor>c\<rfloor> \<le> pow2 1018 * of_int ?T"
  proof (cases "?T = 0")
    case True
    then have "t = 0" using t by (simp add: to_double_zero)
    then have "m = 0" using m by (simp add: to_double_zero)
    then have "c = 0" using c by (simp add: to_double_zero)
    then show ?thesis using True by simp
  next
    case False
    then have one: "(1::rat) \<le> of_int ?T" using T by simp
    have t0: "0 \<le> t" using to_double_Fin_nonneg [OF _ t] T by simp
    have p0: "0 \<le> p" using to_double_Fin_nonneg [OF decimal_value_nonneg [OF pct] p] .
    have m0: "0 \<le> m" using to_double_Fin_nonneg [OF _ m] t0 p0 by simp
    have "m < pow2 1024" using m by (rule to_double_Fin_less)
    then obtain c' where "to_double (m / 100) = Fin c'" "c' \<le> pow2 1018"
      using to_double_div_100 [OF m0] by blast
    with c have "c \<le> pow2 1018" by simp
    moreover have "of_int \<lfloor>c\<rfloor> \<le> c" by (rule of_int_floor_le)
    moreover have "pow2 1018 * 1 \<le> pow2 1018 * of_int ?T"
      using one pow2_pos [of 1018] by (intro mult_left_mono) simp_all
    ultimately show ?thesis by linarith
  qed
  with nn r show ?thesis by simp
qed

lemma collect_ratio:
  assumes "d \<in> set (collect e files)"
  shows "0 \<le> covered d \<and> 0 \<le> total d \<and> of_int (covered d) \<le> pow2 1018 * of_int (total d)"
proof -
  obtain f where "parse_gcov_output (int_max_str_digits e) (run_gcov e) f = Some d"
    using assms map_filter_mem unfolding collect_def by fastforce
  then show ?thesis by (rule record_ratio)
qed

lemma sum_ratio:
  assumes "\<And>d. d \<in> set ds \<Longrightarrow>
     0 \<le> covered d \<and> 0 \<le> total d \<and> of_int (covered d) \<le> pow2 1018 * of_int (total d)"
  shows "0 \<le> sum_list (map covered ds) \<and> 0 \<le> sum_list (map total ds)
     \<and> of_int (sum_list (map covered ds)) \<le> pow2 1018 * of_int (sum_list (map total ds))"
  using assms
proof (induction ds)
  case Nil
  then show ?case by simp
next
  case (Cons d ds)
  have d: "0 \<le> covered d" "0 \<le> total d" "of_int (covered d) \<le> pow2 1018 * of_int (total d)"
    using Cons.prems [of d] by simp_all
  have ih: "0 \<le> sum_list (map covered ds)" "0 \<le> sum_list (map total ds)"
    "of_int (sum_list (map covered ds)) \<le> pow2 1018 * of_int (sum_list (map total ds))"
    using Cons.IH Cons.prems by simp_all
  show ?case using d ih by (simp add: distrib_left)
qed

lemma float_mul_int_100: "float_mul_int x 100 = Inr (float_mul x (Fin 100))"
  by (simp add: float_mul_int_def int_to_float_100)

lemma percent_of_returns:
  assumes "0 \<le> c" "of_int c \<le> pow2 1018 * of_int t"
  shows "\<exists>v. percent_of c t = Inr v"
proof (cases "0 < t")
  case False
  then show ?thesis by (simp add: percent_of_def)
next
  case True
  then have tpos: "(0::rat) < of_int t" by simp
  have "of_int c / of_int t \<le> pow2 1018"
    using assms(2) tpos by (simp add: pos_divide_le_eq)
  moreover have "(0::rat) \<le> of_int c / of_int t" using assms(1) tpos by simp
  ultimately obtain q where "to_double (of_int c / of_int t) = Fin q"
    using to_double_le_pow2 [of "of_int c / of_int t" 1018] by auto
  then show ?thesis using True
    by (simp add: percent_of_def int_true_div_def float_mul_int_100)
qed

lemma percent_of_zero: "t \<le> 0 \<Longrightarrow> percent_of c t = Inr (PyInt 0)"
  by (simp add: percent_of_def)

lemma percent_of_no_zero_division: "percent_of c t \<noteq> Inl ZeroDivisionError"
  by (auto simp: percent_of_def int_true_div_def float_mul_int_100
        split: pyfloat.splits sum.splits)

lemma category_rows_return:
  assumes "\<And>c. c \<in> set cs \<Longrightarrow>
     0 \<le> covered_sum (lookup cats c)
     \<and> of_int (covered_sum (lookup cats c)) \<le> pow2 1018 * of_int (total_sum (lookup cats c))"
  shows "snd (category_rows cats cs) = None"
  using assms
proof (induction cs)
  case Nil
  then show ?case by simp
next
  case (Cons c cs)
  obtain v where v: "percent_of (covered_sum (lookup cats c)) (total_sum (lookup cats c)) = Inr v"
    using percent_of_returns Cons.prems [of c] by auto
  obtain rows r where cr: "category_rows cats cs = (rows, r)"
    by (cases "category_rows cats cs")
  have "snd (category_rows cats cs) = None" using Cons.prems by (intro Cons.IH) simp
  then have "r = None" using cr by simp
  then show ?case using v cr by (simp add: Let_def)
qed

lemma group_by_category_lookup:
  "lookup (group_by_category ds) k =
     \<lparr>covered_sum = sum_list (map covered (filter (\<lambda>d. categorize (file_name d) = k) ds)),
      total_sum = sum_list (map total (filter (\<lambda>d. categorize (file_name d) = k) ds))\<rparr>"
proof -
  have "lookup [] k = \<lparr>covered_sum = 0, total_sum = 0\<rparr>"
    by (simp add: lookup_def)
  then show ?thesis
    unfolding group_by_category_def by (simp add: foldl_add_lookup)
qed

lemma collect_rows_return:
  "snd (category_rows (group_by_category (collect e files)) cs) = None"
proof (rule category_rows_return)
  fix c
  let ?sub = "filter (\<lambda>d. categorize (file_name d) = c) (collect e files)"
  have "0 \<le> covered d \<and> 0 \<le> total d \<and> of_int (covered d) \<le> pow2 1018 * of_int (total d)"
    if "d \<in> set ?sub" for d
    using that collect_ratio [of d e files] by simp
  from sum_ratio [of ?sub, OF this]
  show "0 \<le> covered_sum (lookup (group_by_category (collect e files)) c)
     \<and> of_int (covered_sum (lookup (group_by_category (collect e files)) c))
        \<le> pow2 1018 * of_int (total_sum (lookup (group_by_category (collect e files)) c))"
    by (simp add: group_by_category_lookup)
qed




lemma report_tables:
  assumes "collect e (find_gcda (os_walk e)) \<noteq> []"
    and "percent_of (sum_list (map covered (collect e (find_gcda (os_walk e)))))
           (sum_list (map total (collect e (find_gcda (os_walk e))))) = Inr v"
  shows "report e =
     (header @ [Found (length (find_gcda (os_walk e))), Text []]
      @ ([Overall v,
          CoveredLines (sum_list (map covered (collect e (find_gcda (os_walk e)))))
            (sum_list (map total (collect e (find_gcda (os_walk e))))),
          Text []]
         @ [Text ''Coverage by Category:'', rule_line (CHR ''-''),
            Text (ljust 30 ''Category'' @ '' '' @ ljust 15 ''Coverage'' @ '' ''
                  @ ljust 20 ''Lines''),
            rule_line (CHR ''-'')]
         @ fst (category_rows (group_by_category (collect e (find_gcda (os_walk e))))
                  (sort (map fst (group_by_category (collect e (find_gcda (os_walk e)))))))
         @ [Text [], Text ''Top 10 Best Covered Files:'', rule_line (CHR ''-'')]
         @ map file_row (top_files (collect e (find_gcda (os_walk e))))
         @ [Text []]
         @ needs_improvement (collect e (find_gcda (os_walk e))))
      @ footer,
      None)"
proof -
  have ne: "find_gcda (os_walk e) \<noteq> []"
    using assms(1) by (auto simp: collect_def)
  have rows: "snd (category_rows (group_by_category (collect e (find_gcda (os_walk e))))
               (sort (map fst (group_by_category (collect e (find_gcda (os_walk e))))))) = None"
    by (rule collect_rows_return)
  obtain lines r where cr:
    "category_rows (group_by_category (collect e (find_gcda (os_walk e))))
       (sort (map fst (group_by_category (collect e (find_gcda (os_walk e)))))) = (lines, r)"
    by (cases "category_rows (group_by_category (collect e (find_gcda (os_walk e))))
       (sort (map fst (group_by_category (collect e (find_gcda (os_walk e))))))")
  then have "r = None" using rows by simp
  then show ?thesis
    using assms ne cr by (simp add: report_def Let_def)
qed



lemma print_lines_refused:
  assumes "pr (out @ ls) l = Some ex"
    and "\<forall>i \<in> {..<length ls}. pr (out @ take i ls) (ls ! i) = None"
  shows "print_lines pr out (ls @ l # rest) = (out @ ls, Some ex)"
  using assms
proof (induction ls arbitrary: out)
  case Nil
  then show ?case by simp
next
  case (Cons k ks)
  have first: "pr out k = None" using Cons.prems(2) by (auto dest: bspec [where x = 0])
  have rest: "\<forall>i \<in> {..<length ks}. pr ((out @ [k]) @ take i ks) (ks ! i) = None"
  proof
    fix i assume "i \<in> {..<length ks}"
    then have "Suc i \<in> {..<length (k # ks)}" by simp
    from Cons.prems(2) [rule_format, OF this] show "pr ((out @ [k]) @ take i ks) (ks ! i) = None"
      by simp
  qed
  have "pr ((out @ [k]) @ ks) l = Some ex" using Cons.prems(1) by simp
  from Cons.IH [OF this rest] first show ?case by simp
qed






subsection \<open>The sample runs\<close>

lemma lines_10_of_20:
  "first_file_line (tool_output ''src/game/combat/hit.c'' ''10.00'' ''20'' @ []) ''src/game/combat/hit.c''"
  "first_coverage_line (tool_output ''src/game/combat/hit.c'' ''10.00'' ''20'' @ []) ''10.00'' ''20''"
proof -
  have "re_search file_re (tool_output ''src/game/combat/hit.c'' ''10.00'' ''20'' @ []) = Some [''src/game/combat/hit.c'']"
    unfolding tool_output_def by code_simp
  then show "first_file_line (tool_output ''src/game/combat/hit.c'' ''10.00'' ''20'' @ []) ''src/game/combat/hit.c''"
    by (rule first_file_lineI)
  have "re_search coverage_re (tool_output ''src/game/combat/hit.c'' ''10.00'' ''20'' @ []) = Some [''10.00'', ''20'']"
    unfolding tool_output_def by code_simp
  then show "first_coverage_line (tool_output ''src/game/combat/hit.c'' ''10.00'' ''20'' @ []) ''10.00'' ''20''"
    by (rule first_coverage_lineI)
qed

lemma rounding_10_of_20:
  "to_double (decimal_value ''10.00'') = Fin 10"
  "to_double (rat_of_int 20) = Fin 20"
  "to_double (20 * 10) = Fin 200"
  "to_double (200 / 100) = Fin 2"
  "\<lfloor>2 :: rat\<rfloor> = 2"
  "digits_to_int ''20'' = 20"
proof -
  have dv: "decimal_value ''10.00'' = 10"
    by (simp add: decimal_value_def digits_to_int_def digit_val_def)
  have "to_double (10) = Fin 10"
    by (rule to_double_near [where e = 3 and n = 5629499534213120]) (simp_all add: pow2_def)
  then show "to_double (decimal_value ''10.00'') = Fin 10"
    by (simp only: dv)
  show "to_double (rat_of_int 20) = Fin 20"
    by (rule to_double_near [where e = 4 and n = 5629499534213120]) (simp_all add: pow2_def)
  show "to_double (20 * 10) = Fin 200"
    by (rule to_double_near [where e = 7 and n = 7036874417766400]) (simp_all add: pow2_def)
  show "to_double (200 / 100) = Fin 2"
    by (rule to_double_near [where e = 1 and n = 4503599627370496]) (simp_all add: pow2_def)
  show "\<lfloor>2 :: rat\<rfloor> = 2"
    by (rule floor_unique) simp_all
  show "digits_to_int ''20'' = 20"
    by (simp add: digits_to_int_def digit_val_def)
qed

lemma record_10_of_20:
  "parse_gcov_output 4300 (always (Completed (tool_output ''src/game/combat/hit.c'' ''10.00'' ''20'') [])) ''build/a.gcda''
   = Some \<lparr>file_name = ''src/game/combat/hit.c'', percentage = Fin 10,
            covered = 2, total = 20\<rparr>"
proof -
  have run: "(always (Completed (tool_output ''src/game/combat/hit.c'' ''10.00'' ''20'') [])) ''build/a.gcda''
             = Completed (tool_output ''src/game/combat/hit.c'' ''10.00'' ''20'') []"
    by (simp add: always_def)
  have lim: "\<not> ((4300::nat) \<noteq> 0 \<and> 4300 < length ''20'')"
    by simp
  show ?thesis
    by (simp only: parse_gcov_output_lines [where maxd = 4300 and f = "''build/a.gcda''"
            and gcov = "always (Completed (tool_output ''src/game/combat/hit.c'' ''10.00'' ''20'') [])",
            OF run lines_10_of_20]
          lim if_False rounding_10_of_20 pyfloat.case)
qed

lemma lines_90_of_10:
  "first_file_line (tool_output ''src/utils/log.c'' ''90.00'' ''10'' @ []) ''src/utils/log.c''"
  "first_coverage_line (tool_output ''src/utils/log.c'' ''90.00'' ''10'' @ []) ''90.00'' ''10''"
proof -
  have "re_search file_re (tool_output ''src/utils/log.c'' ''90.00'' ''10'' @ []) = Some [''src/utils/log.c'']"
    unfolding tool_output_def by code_simp
  then show "first_file_line (tool_output ''src/utils/log.c'' ''90.00'' ''10'' @ []) ''src/utils/log.c''"
    by (rule first_file_lineI)
  have "re_search coverage_re (tool_output ''src/utils/log.c'' ''90.00'' ''10'' @ []) = Some [''90.00'', ''10'']"
    unfolding tool_output_def by code_simp
  then show "first_coverage_line (tool_output ''src/utils/log.c'' ''90.00'' ''10'' @ []) ''90.00'' ''10''"
    by (rule first_coverage_lineI)
qed

lemma rounding_90_of_10:
  "to_double (decimal_value ''90.00'') = Fin 90"
  "to_double (rat_of_int 10) = Fin 10"
  "to_double (10 * 90) = Fin 900"
  "to_double (900 / 100) = Fin 9"
  "\<lfloor>9 :: rat\<rfloor> = 9"
  "digits_to_int ''10'' = 10"
proof -
  have dv: "decimal_value ''90.00'' = 90"
    by (simp add: decimal_value_def digits_to_int_def digit_val_def)
  have "to_double (90) = Fin 90"
    by (rule to_double_near [where e = 6 and n = 6333186975989760]) (simp_all add: pow2_def)
  then show "to_double (decimal_value ''90.00'') = Fin 90"
    by (simp only: dv)
  show "to_double (rat_of_int 10) = Fin 10"
    by (rule to_double_near [where e = 3 and n = 5629499534213120]) (simp_all add: pow2_def)
  show "to_double (10 * 90) = Fin 900"
    by (rule to_double_near [where e = 9 and n = 7916483719987200]) (simp_all add: pow2_def)
  show "to_double (900 / 100) = Fin 9"
    by (rule to_double_near [where e = 3 and n = 5066549580791808]) (simp_all add: pow2_def)
  show "\<lfloor>9 :: rat\<rfloor> = 9"
    by (rule floor_unique) simp_all
  show "digits_to_int ''10'' = 10"
    by (simp add: digits_to_int_def digit_val_def)
qed

lemma record_90_of_10:
  "parse_gcov_output 4300 (always (Completed (tool_output ''src/utils/log.c'' ''90.00'' ''10'') [])) ''build/a.gcda''
   = Some \<lparr>file_name = ''src/utils/log.c'', percentage = Fin 90,
            covered = 9, total = 10\<rparr>"
proof -
  have run: "(always (Completed (tool_output ''src/utils/log.c'' ''90.00'' ''10'') [])) ''build/a.gcda''
             = Completed (tool_output ''src/utils/log.c'' ''90.00'' ''10'') []"
    by (simp add: always_def)
  have lim: "\<not> ((4300::nat) \<noteq> 0 \<and> 4300 < length ''10'')"
    by simp
  show ?thesis
    by (simp only: parse_gcov_output_lines [where maxd = 4300 and f = "''build/a.gcda''"
            and gcov = "always (Completed (tool_output ''src/utils/log.c'' ''90.00'' ''10'') [])",
            OF run lines_90_of_10]
          lim if_False rounding_90_of_10 pyfloat.case)
qed

lemma lines_90_of_100:
  "first_file_line (tool_output ''src/utils/str.c'' ''90.00'' ''100'' @ []) ''src/utils/str.c''"
  "first_coverage_line (tool_output ''src/utils/str.c'' ''90.00'' ''100'' @ []) ''90.00'' ''100''"
proof -
  have "re_search file_re (tool_output ''src/utils/str.c'' ''90.00'' ''100'' @ []) = Some [''src/utils/str.c'']"
    unfolding tool_output_def by code_simp
  then show "first_file_line (tool_output ''src/utils/str.c'' ''90.00'' ''100'' @ []) ''src/utils/str.c''"
    by (rule first_file_lineI)
  have "re_search coverage_re (tool_output ''src/utils/str.c'' ''90.00'' ''100'' @ []) = Some [''90.00'', ''100'']"
    unfolding tool_output_def by code_simp
  then show "first_coverage_line (tool_output ''src/utils/str.c'' ''90.00'' ''100'' @ []) ''90.00'' ''100''"
    by (rule first_coverage_lineI)
qed

lemma rounding_90_of_100:
  "to_double (decimal_value ''90.00'') = Fin 90"
  "to_double (rat_of_int 100) = Fin 100"
  "to_double (100 * 90) = Fin 9000"
  "to_double (9000 / 100) = Fin 90"
  "\<lfloor>90 :: rat\<rfloor> = 90"
  "digits_to_int ''100'' = 100"
proof -
  have dv: "decimal_value ''90.00'' = 90"
    by (simp add: decimal_value_def digits_to_int_def digit_val_def)
  have "to_double (90) = Fin 90"
    by (rule to_double_near [where e = 6 and n = 6333186975989760]) (simp_all add: pow2_def)
  then show "to_double (decimal_value ''90.00'') = Fin 90"
    by (simp only: dv)
  show "to_double (rat_of_int 100) = Fin 100"
    by (rule to_double_near [where e = 6 and n = 7036874417766400]) (simp_all add: pow2_def)
  show "to_double (100 * 90) = Fin 9000"
    by (rule to_double_near [where e = 13 and n = 4947802324992000]) (simp_all add: pow2_def)
  show "to_double (9000 / 100) = Fin 90"
    by (rule to_double_near [where e = 6 and n = 6333186975989760]) (simp_all add: pow2_def)
  show "\<lfloor>90 :: rat\<rfloor> = 90"
    by (rule floor_unique) simp_all
  show "digits_to_int ''100'' = 100"
    by (simp add: digits_to_int_def digit_val_def)
qed

lemma record_90_of_100:
  "parse_gcov_output 4300 (always (Completed (tool_output ''src/utils/str.c'' ''90.00'' ''100'') [])) ''build/a.gcda''
   = Some \<lparr>file_name = ''src/utils/str.c'', percentage = Fin 90,
            covered = 90, total = 100\<rparr>"
proof -
  have run: "(always (Completed (tool_output ''src/utils/str.c'' ''90.00'' ''100'') [])) ''build/a.gcda''
             = Completed (tool_output ''src/utils/str.c'' ''90.00'' ''100'') []"
    by (simp add: always_def)
  have lim: "\<not> ((4300::nat) \<noteq> 0 \<and> 4300 < length ''100'')"
    by simp
  show ?thesis
    by (simp only: parse_gcov_output_lines [where maxd = 4300 and f = "''build/a.gcda''"
            and gcov = "always (Completed (tool_output ''src/utils/str.c'' ''90.00'' ''100'') [])",
            OF run lines_90_of_100]
          lim if_False rounding_90_of_100 pyfloat.case)
qed

lemma parse_gcov_output_cong:
  "gcov f = gcov' f' \<Longrightarrow> parse_gcov_output maxd gcov f = parse_gcov_output maxd gcov' f'"
  by (simp add: parse_gcov_output_def)

lemma example_artifacts:
  "find_gcda (os_walk example_env)
   = [''build/combat.gcda'', ''build/utils/log.gcda'', ''build/utils/str.gcda'']"
  by (simp add: example_env_def find_gcda_def path_join_def endswith_def)

lemma example_records:
  "collect example_env (find_gcda (os_walk example_env))
   = [\<lparr>file_name = ''src/game/combat/hit.c'', percentage = Fin 10, covered = 2, total = 20\<rparr>,
      \<lparr>file_name = ''src/utils/log.c'', percentage = Fin 90, covered = 9, total = 10\<rparr>,
      \<lparr>file_name = ''src/utils/str.c'', percentage = Fin 90, covered = 90, total = 100\<rparr>]"
proof -
  have a: "parse_gcov_output 4300 (run_gcov example_env) ''build/combat.gcda''
      = Some \<lparr>file_name = ''src/game/combat/hit.c'', percentage = Fin 10, covered = 2, total = 20\<rparr>"
    using record_10_of_20
    by (subst parse_gcov_output_cong
          [where gcov' = "always (Completed (tool_output ''src/game/combat/hit.c'' ''10.00'' ''20'') [])"
             and f' = "''build/a.gcda''"])
       (simp_all add: example_env_def by_name_def always_def)
  have b: "parse_gcov_output 4300 (run_gcov example_env) ''build/utils/log.gcda''
      = Some \<lparr>file_name = ''src/utils/log.c'', percentage = Fin 90, covered = 9, total = 10\<rparr>"
    using record_90_of_10
    by (subst parse_gcov_output_cong
          [where gcov' = "always (Completed (tool_output ''src/utils/log.c'' ''90.00'' ''10'') [])"
             and f' = "''build/a.gcda''"])
       (simp_all add: example_env_def by_name_def always_def)
  have c: "parse_gcov_output 4300 (run_gcov example_env) ''build/utils/str.gcda''
      = Some \<lparr>file_name = ''src/utils/str.c'', percentage = Fin 90, covered = 90, total = 100\<rparr>"
    using record_90_of_100
    by (subst parse_gcov_output_cong
          [where gcov' = "always (Completed (tool_output ''src/utils/str.c'' ''90.00'' ''100'') [])"
             and f' = "''build/a.gcda''"])
       (simp_all add: example_env_def by_name_def always_def)
  have lim: "int_max_str_digits example_env = 4300" by (simp add: example_env_def)
  show ?thesis
    by (simp only: example_artifacts collect_def lim map_filter_simps a b c option.case)
qed

lemma zero_artifacts: "find_gcda (os_walk zero_env) = [''build/a.gcda'']"
  by (simp add: zero_env_def find_gcda_def path_join_def endswith_def)

lemma zero_records:
  "collect zero_env (find_gcda (os_walk zero_env))
   = [\<lparr>file_name = ''a.c'', percentage = Fin 150, covered = 0, total = 0\<rparr>]"
proof -
  have r: "parse_gcov_output 4300 (run_gcov zero_env) ''build/a.gcda''
      = Some \<lparr>file_name = ''a.c'', percentage = Fin 150, covered = 0, total = 0\<rparr>"
    using record_150_of_0 by (simp add: zero_env_def)
  have lim: "int_max_str_digits zero_env = 4300" by (simp add: zero_env_def)
  show ?thesis
    by (simp only: zero_artifacts collect_def lim map_filter_simps r option.case)
qed














subsection \<open>The report as a whole\<close>

text \<open>
  C4. The percentage expression never divides by zero. With a total of zero it gives the
  integer 0, for the overall figure (also over no records at all) and for a category
  alike; a run whose records have no lines reports an overall percentage of 0.
\<close>

theorem C4_zero_denominator:
  "(total_lines \<le> 0 \<longrightarrow> percent_of covered_lines total_lines = Inr (PyInt 0))
   \<and> percent_of covered_lines total_lines \<noteq> Inl ZeroDivisionError
   \<and> percent_of (sum_list (map covered [])) (sum_list (map total [])) = Inr (PyInt 0)
   \<and> (sum_list (map total ds) = 0 \<longrightarrow>
        percent_of (sum_list (map covered ds)) (sum_list (map total ds)) = Inr (PyInt 0))
   \<and> (total_sum (lookup categories c) = 0 \<longrightarrow>
        category_rows categories (c # cs)
        = (CategoryRow c (PyInt 0) (covered_sum (lookup categories c)) 0
             # fst (category_rows categories cs),
           snd (category_rows categories cs)))
   \<and> (collect e (find_gcda (os_walk e)) \<noteq> []
        \<and> sum_list (map total (collect e (find_gcda (os_walk e)))) = 0 \<longrightarrow>
        snd (report e) = None \<and> Overall (PyInt 0) \<in> set (fst (report e)))"
proof (intro conjI impI)
  show "percent_of covered_lines total_lines = Inr (PyInt 0)" if "total_lines \<le> 0"
    using that by (rule percent_of_zero)
  show "percent_of covered_lines total_lines \<noteq> Inl ZeroDivisionError"
    by (rule percent_of_no_zero_division)
  show "percent_of (sum_list (map covered [])) (sum_list (map total [])) = Inr (PyInt 0)"
    by (simp add: percent_of_zero)
  show "percent_of (sum_list (map covered ds)) (sum_list (map total ds)) = Inr (PyInt 0)"
    if "sum_list (map total ds) = 0"
    using that by (simp add: percent_of_zero)
  show "category_rows categories (c # cs)
        = (CategoryRow c (PyInt 0) (covered_sum (lookup categories c)) 0
             # fst (category_rows categories cs),
           snd (category_rows categories cs))"
    if "total_sum (lookup categories c) = 0"
    using that by (simp add: percent_of_zero Let_def split: prod.splits)
next
  assume a: "collect e (find_gcda (os_walk e)) \<noteq> []
        \<and> sum_list (map total (collect e (find_gcda (os_walk e)))) = 0"
  then have "percent_of (sum_list (map covered (collect e (find_gcda (os_walk e)))))
           (sum_list (map total (collect e (find_gcda (os_walk e))))) = Inr (PyInt 0)"
    by (simp add: percent_of_zero)
  from report_tables [OF _ this] a
  show "snd (report e) = None" and "Overall (PyInt 0) \<in> set (fst (report e))"
    by simp_all
qed

theorem C4_zero_denominator_witness:
  "collect zero_env (find_gcda (os_walk zero_env))
     = [\<lparr>file_name = ''a.c'', percentage = Fin 150, covered = 0, total = 0\<rparr>]
   \<and> snd (report zero_env) = None
   \<and> Overall (PyInt 0) \<in> set (fst (report zero_env))
   \<and> percent_of 0 0 = Inr (PyInt 0)"
proof -
  have h: "collect zero_env (find_gcda (os_walk zero_env)) \<noteq> []
     \<and> sum_list (map total (collect zero_env (find_gcda (os_walk zero_env)))) = 0"
    unfolding zero_records by simp
  have z: "(0::int) \<le> 0" by simp
  from C4_zero_denominator [where e = zero_env and total_lines = 0 and covered_lines = 0
      and ds = "[]" and categories = "[]" and c = "[]" and cs = "[]"] h z
  have "snd (report zero_env) = None \<and> Overall (PyInt 0) \<in> set (fst (report zero_env))
        \<and> percent_of 0 0 = Inr (PyInt 0)"
    by blast
  then show ?thesis using zero_records by blast
qed

theorem C5_top_ten_witness:
  "top_files (collect example_env (find_gcda (os_walk example_env)))
   = [\<lparr>file_name = ''src/utils/log.c'', percentage = Fin 90, covered = 9, total = 10\<rparr>,
      \<lparr>file_name = ''src/utils/str.c'', percentage = Fin 90, covered = 90, total = 100\<rparr>,
      \<lparr>file_name = ''src/game/combat/hit.c'', percentage = Fin 10, covered = 2, total = 20\<rparr>]"
proof -
  have "top_files (collect example_env (find_gcda (os_walk example_env)))
     = take 10 (py_sorted_reverse float_lt percentage
                  (collect example_env (find_gcda (os_walk example_env))))"
    using C5_top_ten [of example_env "find_gcda (os_walk example_env)"] by (rule conjunct1)
  then show ?thesis
    unfolding example_records by (simp add: py_sorted_reverse_def py_sorted_def)
qed

theorem C6_needs_improvement_witness:
  "needs_improvement (collect example_env (find_gcda (os_walk example_env)))
   = [NeedsImprovement 1, rule_line (CHR ''-''),
      FileRow ''hit.c'' (Fin 10) 2 20]
   \<and> needs_improvement (collect zero_env (find_gcda (os_walk zero_env)))
   = [Text ''All files have >50% coverage!'']"
proof -
  have "needs_improvement (collect example_env (find_gcda (os_walk example_env)))
   = [NeedsImprovement 1, rule_line (CHR ''-''), FileRow ''hit.c'' (Fin 10) 2 20]"
    using C6_needs_improvement [of example_env "find_gcda (os_walk example_env)"]
    unfolding example_records
    by (simp add: low_coverage_def py_sorted_def file_row_def basename_def)
  moreover have "needs_improvement (collect zero_env (find_gcda (os_walk zero_env)))
   = [Text ''All files have >50% coverage!'']"
    using C6_needs_improvement [of zero_env "find_gcda (os_walk zero_env)"]
    unfolding zero_records by (simp add: low_coverage_def)
  ultimately show ?thesis by (rule conjI)
qed




end
